theory Spec2Isabelle
  imports Complex_Main "HOL-Library.AList" "HOL-Library.Word"
begin

section \<open>Scenarios (scenario/runner.go)\<close>

subsection \<open>Durations\<close>

text \<open>
  Go's \<open>time.Duration\<close> is an \<open>int64\<close> count of nanoseconds. It is modelled as an
  \<open>int\<close>; every addition the source performs on it is followed by \<open>wrap64\<close>, the
  two's-complement wrap-around of Go's signed 64-bit arithmetic.
\<close>

type_synonym Duration = int

definition wrap64 :: "int \<Rightarrow> int" where
  "wrap64 x = (x + 2 ^ 63) mod 2 ^ 64 - 2 ^ 63"

definition is_int64 :: "int \<Rightarrow> bool" where
  "is_int64 x = (- (2 ^ 63) \<le> x \<and> x < 2 ^ 63)"

definition Second :: Duration where
  "Second = 1000000000"

subsection \<open>Data\<close>

text \<open>
  \<open>resource.Quantity\<close> comes from the Kubernetes libraries; it is only stored and
  passed on, so it is kept in its textual form.
\<close>

type_synonym Quantity = string

record Deployment =
  Name :: string
  CPU :: Quantity
  Memory :: Quantity

text \<open>
  The unexported pointer field \<open>deployment\<close> of an event is \<open>None\<close> for Go's \<open>nil\<close>.
\<close>

record Event =
  Time :: Duration
  Deployment :: string
  Replicas :: int
  deployment :: "Deployment option"

record Scenario =
  Name :: string
  Duration :: Duration
  Deployments :: "Deployment list"
  RepeatAfter :: "Duration option"
  Events :: "Event list"
  NodeSelector :: "string option"

subsection \<open>Cluster object names\<close>

text \<open>
  \<open>strings.Replace(s, old, new, -1)\<close> on byte strings: every non-overlapping
  occurrence of \<open>old\<close>, scanning from the left, is replaced by \<open>new\<close>. With an empty
  \<open>old\<close> Go inserts \<open>new\<close> before every character and at the end (for ASCII text,
  where characters and bytes coincide).
\<close>

function strings_Replace :: "string \<Rightarrow> string \<Rightarrow> string \<Rightarrow> string" where
  "strings_Replace s old new =
     (if old = [] then new @ concat (map (\<lambda>c. c # new) s)
      else if s = [] then []
      else if take (length old) s = old
        then new @ strings_Replace (drop (length old) s) old new
      else hd s # strings_Replace (tl s) old new)"
  by pat_completeness auto
termination
  by (relation "measure (\<lambda>(s, old, new). length s)") (auto simp: neq_Nil_conv)

definition K8sName :: "Deployment \<Rightarrow> string" where
  "K8sName d = strings_Replace (''ccmon-'' @ Deployment.Name d) '' '' ''-''"

subsection \<open>Validation\<close>

datatype ValidateError =
    NoName
  | ZeroDuration
  | NoEvents
  | InvalidNodeSelector string string
  | DuplicateDeploymentNames
  | UnknownDeployment string

text \<open>
  The loop that fills the Go map \<open>uniqueDeps\<close>, keyed by deployment name: a later
  deployment with the same name overwrites the earlier entry.
\<close>

fun collectDeps :: "Deployment list \<Rightarrow> (string \<times> Deployment) list \<Rightarrow> (string \<times> Deployment) list" where
  "collectDeps [] uniqueDeps = uniqueDeps"
| "collectDeps (dep # deps) uniqueDeps =
     collectDeps deps (AList.update (Deployment.Name dep) dep uniqueDeps)"

text \<open>
  The loop that resolves every event's deployment name; it stops at the first
  unknown name.
\<close>

fun resolveEvents :: "(string \<times> Deployment) list \<Rightarrow> Event list \<Rightarrow> ValidateError + Event list" where
  "resolveEvents uniqueDeps [] = Inr []"
| "resolveEvents uniqueDeps (ev # evs) =
     (case map_of uniqueDeps (Event.Deployment ev) of
        None \<Rightarrow> Inl (UnknownDeployment (Event.Deployment ev))
      | Some dep \<Rightarrow>
          (case resolveEvents uniqueDeps evs of
             Inl e \<Rightarrow> Inl e
           | Inr evs' \<Rightarrow> Inr (ev\<lparr>deployment := Some dep\<rparr> # evs')))"

text \<open>The first loop of the repeat expansion: the latest event time, starting from 0.\<close>

fun latestTime :: "Event list \<Rightarrow> Duration \<Rightarrow> Duration" where
  "latestTime [] nextStart = nextStart"
| "latestTime (ev # evs) nextStart =
     latestTime evs (if Time ev > nextStart then Time ev else nextStart)"

text \<open>
  The inner loop of the repeat expansion, one replay of the event list: the running
  \<open>nextStart\<close> is advanced by each event's own offset, and the copy gets the running
  value as its time.
\<close>

fun replayEvents :: "Event list \<Rightarrow> Duration \<Rightarrow> Event list \<Rightarrow> Duration \<times> Event list" where
  "replayEvents [] nextStart newEvents = (nextStart, newEvents)"
| "replayEvents (ev # evs) nextStart newEvents =
     (let nextStart' = wrap64 (nextStart + Time ev)
      in replayEvents evs nextStart' (newEvents @ [ev\<lparr>Time := nextStart'\<rparr>]))"

text \<open>
  The outer loop \<open>for nextStart < s.Duration\<close>. Nothing in the source bounds it, so it
  is a partial function: \<open>None\<close> when the loop never exits.
\<close>

partial_function (option) expandRepeats ::
  "Event list \<Rightarrow> Duration \<Rightarrow> Duration \<Rightarrow> Duration \<Rightarrow> Event list \<Rightarrow> Event list option" where
  "expandRepeats evs dur repeatAfter nextStart newEvents =
     (if nextStart < dur
      then (case replayEvents evs nextStart newEvents of
              (nextStart', newEvents') \<Rightarrow>
                expandRepeats evs dur repeatAfter (wrap64 (nextStart' + repeatAfter)) newEvents')
      else Some newEvents)"

declare expandRepeats.simps [code]

text \<open>
  \<open>Scenario.Validate\<close>. The label-selector parser of the Kubernetes libraries is a
  parameter: it returns the parse error, if any. The result is \<open>None\<close> when the
  method does not return, \<open>Some (Inl e)\<close> for an error and \<open>Some (Inr s')\<close> for the
  scenario as the method leaves it. \<open>sort.SliceStable\<close> with the comparison on
  \<open>Time\<close> is the stable sort by that key.
\<close>

definition Validate :: "(string \<Rightarrow> string option) \<Rightarrow> Scenario \<Rightarrow> (ValidateError + Scenario) option" where
  "Validate ParseToLabelSelector s =
     (if Scenario.Name s = [] then Some (Inl NoName)
      else if Duration s = 0 then Some (Inl ZeroDuration)
      else if length (Events s) = 0 then Some (Inl NoEvents)
      else
        (case (case NodeSelector s of
                 None \<Rightarrow> None
               | Some sel \<Rightarrow> map_option (InvalidNodeSelector sel) (ParseToLabelSelector sel)) of
           Some e \<Rightarrow> Some (Inl e)
         | None \<Rightarrow>
            (let uniqueDeps = collectDeps (Deployments s) []
             in if length uniqueDeps \<noteq> length (Deployments s)
                then Some (Inl DuplicateDeploymentNames)
                else
                  (case resolveEvents uniqueDeps (Events s) of
                     Inl e \<Rightarrow> Some (Inl e)
                   | Inr evs \<Rightarrow>
                      (case RepeatAfter s of
                         None \<Rightarrow> Some (Inr (s\<lparr>Events := sort_key Time evs\<rparr>))
                       | Some repeatAfter \<Rightarrow>
                          (case expandRepeats evs (Duration s) repeatAfter
                                  (wrap64 (latestTime evs 0 + repeatAfter)) [] of
                             None \<Rightarrow> None
                           | Some newEvents \<Rightarrow>
                               Some (Inr (s\<lparr>Events := sort_key Time (evs @ newEvents)\<rparr>))))))))"

text \<open>The offsets of the events a successful validation leaves in the scenario.\<close>

definition validatedTimes :: "(ValidateError + Scenario) option \<Rightarrow> Duration list option" where
  "validatedTimes r = (case r of Some (Inr s') \<Rightarrow> Some (map Time (Events s')) | _ \<Rightarrow> None)"

subsection \<open>Scaling one event\<close>










section \<open>Cost monitor (scenario/costmonitor.go)\<close>

text \<open>
  A \<open>float64\<close> is modelled by the real number it stands for, and an operation on
  \<open>float64\<close> by the exact operation followed by the rounding \<open>fl\<close>, a parameter of
  every function that computes with them: \<open>a + b\<close> in Go is \<open>fl (a + b)\<close> here.
  Nothing is fixed about \<open>fl\<close> in the definitions; each property says what it needs
  of it. Infinities and NaN are outside the model.

  The maps the monitor ranges over (\<open>nodes\<close>, \<open>pods\<close>) are association lists with one
  entry per key; the maps it only indexes (\<open>nodePrices\<close>, a node's labels) are partial
  functions. The files, the CSV writer, the start time and the lock are left out: every
  method below runs under the lock, as one step.
\<close>

record Node =
  Name :: string
  Labels :: "string \<rightharpoonup> string"

text \<open>
  The periods of the two timers, in seconds: \<open>time.NewTicker(250 * time.Millisecond)\<close> in
  \<open>monitorPendingPods\<close> and \<open>time.Tick(1 * time.Second)\<close> in \<open>logCost\<close>.
\<close>

definition fastIntervalSeconds :: real where
  "fastIntervalSeconds = 0.25"

definition tickIntervalSeconds :: real where
  "tickIntervalSeconds = 1"

type_synonym PodPhase = string

definition PodPending :: PodPhase where
  "PodPending = ''Pending''"

record Pod =
  UID :: string
  Phase :: PodPhase

definition LabelInstanceTypeStable :: string where
  "LabelInstanceTypeStable = ''node.kubernetes.io/instance-type''"

record CostMonitor =
  nodes :: "(string \<times> Node) list"
  nodePrices :: "string \<rightharpoonup> real"
  pods :: "(string \<times> Pod) list"
  cumulativeCost :: real
  pendingPodSeconds :: real
  pendingPods :: int

text \<open>The monitor as \<open>NewCostMonitor\<close> builds it: empty maps, zero accumulators.\<close>

definition NewCostMonitor :: CostMonitor where
  "NewCostMonitor =
     \<lparr>nodes = [], nodePrices = Map.empty, pods = [],
      cumulativeCost = 0, pendingPodSeconds = 0, pendingPods = 0\<rparr>"

text \<open>Indexing a Go map of \<open>float64\<close> or \<open>string\<close>: the zero value for a missing key.\<close>

definition priceAt :: "(string \<rightharpoonup> real) \<Rightarrow> string \<Rightarrow> real" where
  "priceAt m k = (case m k of None \<Rightarrow> 0 | Some p \<Rightarrow> p)"

definition labelAt :: "(string \<rightharpoonup> string) \<Rightarrow> string \<Rightarrow> string" where
  "labelAt m k = (case m k of None \<Rightarrow> [] | Some v \<Rightarrow> v)"

text \<open>
  \<open>addNode\<close>, called for added and for modified nodes. The pricing provider's
  \<open>OnDemandPrice\<close> is a parameter: the price of an instance type, if it has one.
\<close>

definition addNode :: "(string \<Rightarrow> real option) \<Rightarrow> CostMonitor \<Rightarrow> Node \<Rightarrow> CostMonitor" where
  "addNode OnDemandPrice c node =
     (let c1 = c\<lparr>nodes := AList.update (Node.Name node) node (nodes c)\<rparr>;
          instanceType = labelAt (Labels node) LabelInstanceTypeStable
      in case OnDemandPrice instanceType of
           Some price \<Rightarrow> c1\<lparr>nodePrices := (nodePrices c1)(Node.Name node \<mapsto> price)\<rparr>
         | None \<Rightarrow> c1)"

definition removeNode :: "CostMonitor \<Rightarrow> Node \<Rightarrow> CostMonitor" where
  "removeNode c node =
     c\<lparr>nodes := AList.delete (Node.Name node) (nodes c),
       nodePrices := (nodePrices c)(Node.Name node := None)\<rparr>"

definition updatePod :: "CostMonitor \<Rightarrow> Pod \<Rightarrow> CostMonitor" where
  "updatePod c pod = c\<lparr>pods := AList.update (UID pod) pod (pods c)\<rparr>"

definition deletePod :: "CostMonitor \<Rightarrow> Pod \<Rightarrow> CostMonitor" where
  "deletePod c pod = c\<lparr>pods := AList.delete (UID pod) (pods c)\<rparr>"

text \<open>One tick of \<open>monitorPendingPods\<close> (every 250ms): the loop over the pods, then the update.\<close>

fun countPending :: "(string \<times> Pod) list \<Rightarrow> int \<Rightarrow> int" where
  "countPending [] n = n"
| "countPending ((uid, p) # ps) n =
     countPending ps (if Phase p = PodPending then n + 1 else n)"

definition monitorPendingPods_tick :: "(real \<Rightarrow> real) \<Rightarrow> CostMonitor \<Rightarrow> CostMonitor" where
  "monitorPendingPods_tick fl c =
     (let n = countPending (pods c) 0
      in c\<lparr>pendingPods := n,
           pendingPodSeconds := fl (pendingPodSeconds c + fl (fl (real_of_int n) * 0.25))\<rparr>)"

text \<open>One tick of \<open>logCost\<close> (every second): the loop over the nodes, then the update.\<close>

fun sumPrices ::
  "(real \<Rightarrow> real) \<Rightarrow> (string \<times> Node) list \<Rightarrow> (string \<rightharpoonup> real) \<Rightarrow> real \<Rightarrow> real" where
  "sumPrices fl [] prices perHourCost = perHourCost"
| "sumPrices fl ((name, n) # ns) prices perHourCost =
     sumPrices fl ns prices (fl (perHourCost + priceAt prices (Node.Name n)))"

definition perHourCost :: "(real \<Rightarrow> real) \<Rightarrow> CostMonitor \<Rightarrow> real" where
  "perHourCost fl c = sumPrices fl (nodes c) (nodePrices c) 0"

definition logCost_tick :: "(real \<Rightarrow> real) \<Rightarrow> CostMonitor \<Rightarrow> CostMonitor" where
  "logCost_tick fl c =
     c\<lparr>cumulativeCost := fl (cumulativeCost c + fl (perHourCost fl c / 3600))\<rparr>"

text \<open>
  What happens to a running monitor: a watch event for a node or a pod, or a tick of
  one of the two timers. The watch loops ignore every event type but the first three.
\<close>

datatype EventType = Added | Modified | Deleted | Bookmark | Error

datatype activity =
    NodeEvent EventType Node
  | PodEvent EventType Pod
  | FastTick
  | SlowTick

fun step ::
  "(real \<Rightarrow> real) \<Rightarrow> (string \<Rightarrow> real option) \<Rightarrow> CostMonitor \<Rightarrow> activity \<Rightarrow> CostMonitor" where
  "step fl pprov c (NodeEvent Added node) = addNode pprov c node"
| "step fl pprov c (NodeEvent Modified node) = addNode pprov c node"
| "step fl pprov c (NodeEvent Deleted node) = removeNode c node"
| "step fl pprov c (NodeEvent _ node) = c"
| "step fl pprov c (PodEvent Added pod) = updatePod c pod"
| "step fl pprov c (PodEvent Modified pod) = updatePod c pod"
| "step fl pprov c (PodEvent Deleted pod) = deletePod c pod"
| "step fl pprov c (PodEvent _ pod) = c"
| "step fl pprov c FastTick = monitorPendingPods_tick fl c"
| "step fl pprov c SlowTick = logCost_tick fl c"

definition run ::
  "(real \<Rightarrow> real) \<Rightarrow> (string \<Rightarrow> real option) \<Rightarrow> CostMonitor \<Rightarrow> activity list \<Rightarrow> CostMonitor" where
  "run fl pprov c acts = foldl (step fl pprov) c acts"

text \<open>The monitor after each activity of a run, the starting one first.\<close>

fun samples ::
  "(real \<Rightarrow> real) \<Rightarrow> (string \<Rightarrow> real option) \<Rightarrow> CostMonitor \<Rightarrow> activity list \<Rightarrow> CostMonitor list" where
  "samples fl pprov c [] = [c]"
| "samples fl pprov c (a # acts) = c # samples fl pprov (step fl pprov c a) acts"

section \<open>Reference notions and example inputs\<close>

subsection \<open>Reasons to reject a scenario\<close>

text \<open>
  The conditions under which a scenario description is to be rejected, stated on the
  scenario itself: an event names a workload that is not in the list of workload specs;
  the node selector is present and does not parse; and the six conditions together.
\<close>

definition unknownReference :: "Scenario \<Rightarrow> bool" where
  "unknownReference s =
     (\<exists>ev \<in> set (Events s). Event.Deployment ev \<notin> Deployment.Name ` set (Deployments s))"

definition selectorMalformed :: "(string \<Rightarrow> string option) \<Rightarrow> Scenario \<Rightarrow> bool" where
  "selectorMalformed P s = (\<exists>sel. NodeSelector s = Some sel \<and> P sel \<noteq> None)"

definition invalid :: "(string \<Rightarrow> string option) \<Rightarrow> Scenario \<Rightarrow> bool" where
  "invalid P s \<longleftrightarrow>
     Scenario.Name s = [] \<or> Duration s = 0 \<or> Events s = []
     \<or> \<not> distinct (map Deployment.Name (Deployments s))
     \<or> unknownReference s \<or> selectorMalformed P s"

text \<open>
  A repeat interval that lets the expansion end: it is positive, no event has a negative
  offset, and the sums the expansion forms stay below \<open>2 ^ 63\<close> nanoseconds.
\<close>

definition repeatBounded :: "Scenario \<Rightarrow> bool" where
  "repeatBounded s \<longleftrightarrow>
     (case RepeatAfter s of
        None \<Rightarrow> True
      | Some repeatAfter \<Rightarrow>
          0 < repeatAfter \<and> (\<forall>ev \<in> set (Events s). 0 \<le> Time ev)
          \<and> max 0 (Duration s) + sum_list (map Time (Events s)) + repeatAfter < 2 ^ 63)"

subsection \<open>Example scenarios\<close>

definition webDeployment :: Deployment where
  "webDeployment = \<lparr>Deployment.Name = ''web'', CPU = ''500m'', Memory = ''1Gi''\<rparr>"

definition scaleUp :: Event where
  "scaleUp = \<lparr>Time = 0, Deployment = ''web'', Replicas = 10, deployment = None\<rparr>"

definition scaleDown :: Event where
  "scaleDown = \<lparr>Time = 5 * Second, Deployment = ''web'', Replicas = 0, deployment = None\<rparr>"

text \<open>Events at 0s and 5s, 30s long, repeating after 10s.\<close>

definition repeatScenario :: Scenario where
  "repeatScenario =
     \<lparr>Scenario.Name = ''burst'', Duration = 30 * Second, Deployments = [webDeployment],
      RepeatAfter = Some (10 * Second), Events = [scaleUp, scaleDown], NodeSelector = None\<rparr>"

text \<open>The same scenario with its events written out of order: 5s first, then 0s.\<close>

definition reversedScenario :: Scenario where
  "reversedScenario =
     \<lparr>Scenario.Name = ''burst'', Duration = 30 * Second, Deployments = [webDeployment],
      RepeatAfter = Some (10 * Second), Events = [scaleDown, scaleUp], NodeSelector = None\<rparr>"

text \<open>One event at 0s, 30s long, with \<open>repeatAfter: 0s\<close>.\<close>

definition zeroRepeatScenario :: Scenario where
  "zeroRepeatScenario =
     \<lparr>Scenario.Name = ''burst'', Duration = 30 * Second, Deployments = [webDeployment],
      RepeatAfter = Some 0, Events = [scaleUp], NodeSelector = None\<rparr>"

text \<open>Two workloads whose names differ only in a space against a hyphen.\<close>

definition spacedDeployment :: Deployment where
  "spacedDeployment = \<lparr>Deployment.Name = ''a b'', CPU = ''1'', Memory = ''1Gi''\<rparr>"

definition hyphenDeployment :: Deployment where
  "hyphenDeployment = \<lparr>Deployment.Name = ''a-b'', CPU = ''1'', Memory = ''1Gi''\<rparr>"

definition collidingScenario :: Scenario where
  "collidingScenario =
     \<lparr>Scenario.Name = ''collide'', Duration = 60 * Second,
      Deployments = [spacedDeployment, hyphenDeployment], RepeatAfter = None,
      Events = [\<lparr>Time = 0, Deployment = ''a b'', Replicas = 1, deployment = None\<rparr>,
                \<lparr>Time = Second, Deployment = ''a-b'', Replicas = 2, deployment = None\<rparr>],
      NodeSelector = None\<rparr>"

subsection \<open>Example calls of \<open>execute\<close>\<close>






subsection \<open>What a property may ask of the rounding\<close>

text \<open>
  Rounding to the nearest \<open>float64\<close> keeps the order, keeps zero and keeps every
  \<open>float64\<close> as it is.
\<close>

definition rounding :: "(real \<Rightarrow> real) \<Rightarrow> bool" where
  "rounding fl \<longleftrightarrow> (\<forall>x y. x \<le> y \<longrightarrow> fl x \<le> fl y) \<and> fl 0 = 0 \<and> (\<forall>x. fl (fl x) = fl x)"

text \<open>
  Zero is rounded to zero, and the relative error of rounding a number between \<open>lo\<close> and
  \<open>hi\<close> is at most \<open>u\<close>; nothing is asked of the rounding anywhere else. For \<open>float64\<close>
  this holds with \<open>u = 2 ^ -53\<close>, \<open>lo = 2 ^ -1022\<close> (the smallest normal number) and \<open>hi\<close>
  the largest finite number: below \<open>lo\<close> the result underflows, above \<open>hi\<close> it overflows.
\<close>

definition roundsWithin :: "real \<Rightarrow> real \<Rightarrow> real \<Rightarrow> (real \<Rightarrow> real) \<Rightarrow> bool" where
  "roundsWithin u lo hi fl \<longleftrightarrow>
     0 \<le> u \<and> u < 1 \<and> fl 0 = 0
     \<and> (\<forall>x. lo \<le> x \<and> x \<le> hi \<longrightarrow> (1 - u) * x \<le> fl x \<and> fl x \<le> (1 + u) * x)"

text \<open>A number that is rounded without overflow or underflow: zero, or between \<open>lo\<close> and \<open>hi\<close>.\<close>

definition inRange :: "real \<Rightarrow> real \<Rightarrow> real \<Rightarrow> bool" where
  "inRange lo hi x \<longleftrightarrow> x = 0 \<or> (lo \<le> x \<and> x \<le> hi)"

text \<open>
  The multiples of a quarter from 0 to \<open>2 ^ 51\<close> are not changed by rounding (they are
  \<open>float64\<close> values: their numerators fit in 53 bits).
\<close>

definition exactQuarters :: "(real \<Rightarrow> real) \<Rightarrow> bool" where
  "exactQuarters fl \<longleftrightarrow>
     (\<forall>k::int. 0 \<le> k \<and> k \<le> 2 ^ 53 \<longrightarrow> fl (real_of_int k / 4) = real_of_int k / 4)"

text \<open>
  A computed value \<open>x'\<close> is within \<open>k\<close> roundings of the exact non-negative value \<open>x\<close>.
\<close>

definition roundings :: "real \<Rightarrow> nat \<Rightarrow> real \<Rightarrow> real \<Rightarrow> bool" where
  "roundings u k x' x \<longleftrightarrow> (1 - u) ^ k * x \<le> x' \<and> x' \<le> (1 + u) ^ k * x"

text \<open>
  Roundings for the examples: arithmetic without rounding error; rounding to the nearest
  multiple of \<open>2 ^ -40\<close>; and an operation that is too large by the relative error
  \<open>2 ^ -53\<close> between \<open>2 ^ -1022\<close> and \<open>2 ^ 1023\<close>, and loses its argument outside.
\<close>

definition exact :: "real \<Rightarrow> real" where
  "exact x = x"

definition fixedPoint :: "real \<Rightarrow> real" where
  "fixedPoint x = real_of_int \<lfloor>x * 2 ^ 40 + 1 / 2\<rfloor> / 2 ^ 40"

definition overshoot :: "real \<Rightarrow> real" where
  "overshoot x = (if 1 / 2 ^ 1022 \<le> x \<and> x \<le> 2 ^ 1023 then x * (1 + 1 / 2 ^ 53) else 0)"

subsection \<open>Reference notions for the cost monitor\<close>

text \<open>The instance type \<open>addNode\<close> looks up: the node's instance-type label.\<close>

definition instanceTypeOf :: "Node \<Rightarrow> string" where
  "instanceTypeOf node = labelAt (Labels node) LabelInstanceTypeStable"

text \<open>
  The burn rate: the sum, over the tracked nodes, of the hourly price recorded for each
  (zero where none is recorded). The pending count: the number of tracked pods in the
  Pending phase.
\<close>

definition burnRate :: "CostMonitor \<Rightarrow> real" where
  "burnRate c = (\<Sum>(name, n) \<leftarrow> nodes c. priceAt (nodePrices c) (Node.Name n))"

definition pendingCount :: "CostMonitor \<Rightarrow> int" where
  "pendingCount c = int (length (filter (\<lambda>(uid, p). Phase p = PodPending) (pods c)))"

text \<open>The monitor without the node of a given name in its tracked set.\<close>

definition untrack :: "string \<Rightarrow> CostMonitor \<Rightarrow> CostMonitor" where
  "untrack name c = c\<lparr>nodes := AList.delete name (nodes c)\<rparr>"

text \<open>
  Invariants: every key of the price map is the name of a tracked node; every recorded
  price is non-negative; the tracked nodes are stored once each, under their own name;
  the two accumulators hold \<open>float64\<close> values, which rounding does not change.
\<close>

definition stored :: "(real \<Rightarrow> real) \<Rightarrow> CostMonitor \<Rightarrow> bool" where
  "stored fl c \<longleftrightarrow>
     fl (cumulativeCost c) = cumulativeCost c \<and> fl (pendingPodSeconds c) = pendingPodSeconds c"

definition pricesTracked :: "CostMonitor \<Rightarrow> bool" where
  "pricesTracked c \<longleftrightarrow> dom (nodePrices c) \<subseteq> fst ` set (nodes c)"

definition pricesNonneg :: "CostMonitor \<Rightarrow> bool" where
  "pricesNonneg c \<longleftrightarrow> (\<forall>k p. nodePrices c k = Some p \<longrightarrow> 0 \<le> p)"

definition wellKeyed :: "CostMonitor \<Rightarrow> bool" where
  "wellKeyed c \<longleftrightarrow>
     distinct (map fst (nodes c)) \<and> (\<forall>(name, n) \<in> set (nodes c). Node.Name n = name)"

text \<open>The pricing oracle has no negative price.\<close>

definition nonnegPrices :: "(string \<Rightarrow> real option) \<Rightarrow> bool" where
  "nonnegPrices pprov \<longleftrightarrow> (\<forall>t p. pprov t = Some p \<longrightarrow> 0 \<le> p)"

text \<open>Every price of the pricing oracle, or of a price map, is zero or at least \<open>pmin\<close>.\<close>

definition pricesFrom :: "real \<Rightarrow> (string \<Rightarrow> real option) \<Rightarrow> bool" where
  "pricesFrom pmin pprov \<longleftrightarrow> (\<forall>t p. pprov t = Some p \<longrightarrow> p = 0 \<or> pmin \<le> p)"

text \<open>
  The number of pending pods is \<open>count\<close> at every tick of the fast timer in a run of
  activities that starts from the monitor \<open>c\<close>.
\<close>

fun pendingHeld ::
  "(real \<Rightarrow> real) \<Rightarrow> (string \<Rightarrow> real option) \<Rightarrow> int \<Rightarrow> CostMonitor \<Rightarrow> activity list \<Rightarrow> bool" where
  "pendingHeld fl pprov count c [] = True"
| "pendingHeld fl pprov count c (a # acts) =
     ((a = FastTick \<longrightarrow> pendingCount c = count)
      \<and> pendingHeld fl pprov count (step fl pprov c a) acts)"

text \<open>
  An activity has a known price when it is not the arrival of a node whose instance type
  the oracle does not know. An activity reprices the node of a given name when it is the
  arrival of a node of that name whose instance type the oracle knows.
\<close>

fun priced :: "(string \<Rightarrow> real option) \<Rightarrow> activity \<Rightarrow> bool" where
  "priced pprov (NodeEvent Added node) = (pprov (instanceTypeOf node) \<noteq> None)"
| "priced pprov (NodeEvent Modified node) = (pprov (instanceTypeOf node) \<noteq> None)"
| "priced pprov a = True"

fun repricing :: "(string \<Rightarrow> real option) \<Rightarrow> string \<Rightarrow> activity \<Rightarrow> bool" where
  "repricing pprov name (NodeEvent Added node) =
     (Node.Name node = name \<and> pprov (instanceTypeOf node) \<noteq> None)"
| "repricing pprov name (NodeEvent Modified node) =
     (Node.Name node = name \<and> pprov (instanceTypeOf node) \<noteq> None)"
| "repricing pprov name a = False"

text \<open>
  The analytic cost of a sequence of node events and ticks, following the words of the
  specification and not the monitor's two maps: the present nodes are kept with their
  prices in one list (an arriving node replaces the entry of its name, a deleted node
  loses it), and every tick of the slow timer adds \<open>price / 3600 \<times> interval\<close> for every
  node in the list.
\<close>

fun track :: "(string \<Rightarrow> real option) \<Rightarrow> (string \<times> real) list \<Rightarrow> activity \<Rightarrow> (string \<times> real) list" where
  "track pprov t (NodeEvent Added node) =
     (Node.Name node, priceAt pprov (instanceTypeOf node))
       # filter (\<lambda>(name, price). name \<noteq> Node.Name node) t"
| "track pprov t (NodeEvent Modified node) =
     (Node.Name node, priceAt pprov (instanceTypeOf node))
       # filter (\<lambda>(name, price). name \<noteq> Node.Name node) t"
| "track pprov t (NodeEvent Deleted node) = filter (\<lambda>(name, price). name \<noteq> Node.Name node) t"
| "track pprov t a = t"

fun analyticCost :: "(string \<Rightarrow> real option) \<Rightarrow> (string \<times> real) list \<Rightarrow> activity list \<Rightarrow> real" where
  "analyticCost pprov t [] = 0"
| "analyticCost pprov t (a # acts) =
     (if a = SlowTick then (\<Sum>(name, price) \<leftarrow> t. price / 3600 * tickIntervalSeconds) else 0)
     + analyticCost pprov (track pprov t a) acts"

text \<open>The monitor's maps and the list of the analytic cost hold the same nodes and prices.\<close>

definition mirrors :: "CostMonitor \<Rightarrow> (string \<times> real) list \<Rightarrow> bool" where
  "mirrors c t \<longleftrightarrow>
     wellKeyed c \<and> distinct (map fst t) \<and> fst ` set t = fst ` set (nodes c)
     \<and> (\<forall>(name, price) \<in> set t. nodePrices c name = Some price)"

text \<open>
  The exact results that the slow timer rounds: each partial sum of the prices, in the order
  of the summation; in a tick, those, the hourly cost over 3600 and the new cumulative
  cost; in a run, those of its ticks of the slow timer.
\<close>

fun roundedSums :: "(real \<Rightarrow> real) \<Rightarrow> (string \<times> Node) list \<Rightarrow> (string \<rightharpoonup> real) \<Rightarrow> real \<Rightarrow> real list" where
  "roundedSums fl [] prices acc = []"
| "roundedSums fl ((name, n) # ns) prices acc =
     (acc + priceAt prices (Node.Name n))
       # roundedSums fl ns prices (fl (acc + priceAt prices (Node.Name n)))"

definition roundedInTick :: "(real \<Rightarrow> real) \<Rightarrow> CostMonitor \<Rightarrow> real list" where
  "roundedInTick fl c =
     roundedSums fl (nodes c) (nodePrices c) 0
       @ [perHourCost fl c / 3600, cumulativeCost c + fl (perHourCost fl c / 3600)]"

fun roundedInRun ::
  "(real \<Rightarrow> real) \<Rightarrow> (string \<Rightarrow> real option) \<Rightarrow> CostMonitor \<Rightarrow> activity list \<Rightarrow> real list" where
  "roundedInRun fl pprov c [] = []"
| "roundedInRun fl pprov c (a # acts) =
     (if a = SlowTick then roundedInTick fl c else []) @ roundedInRun fl pprov (step fl pprov c a) acts"

subsection \<open>Example nodes, pods and runs\<close>

text \<open>An oracle that knows one instance type, at 0.096 per hour.\<close>

definition examplePrices :: "string \<Rightarrow> real option" where
  "examplePrices t = (if t = ''m5.large'' then Some (96 / 1000) else None)"

definition m5Node :: Node where
  "m5Node = \<lparr>Node.Name = ''node-1'', Labels = [LabelInstanceTypeStable \<mapsto> ''m5.large'']\<rparr>"

text \<open>The same node after it lost its instance-type label, and another node without one.\<close>

definition relabelledNode :: Node where
  "relabelledNode = \<lparr>Node.Name = ''node-1'', Labels = Map.empty\<rparr>"

definition unlabelledNode :: Node where
  "unlabelledNode = \<lparr>Node.Name = ''node-2'', Labels = Map.empty\<rparr>"

definition pendingPodA :: Pod where
  "pendingPodA = \<lparr>UID = ''pod-a'', Phase = PodPending\<rparr>"

definition pendingPodB :: Pod where
  "pendingPodB = \<lparr>UID = ''pod-b'', Phase = PodPending\<rparr>"

definition runningPod :: Pod where
  "runningPod = \<lparr>UID = ''pod-c'', Phase = ''Running''\<rparr>"

definition twoPending :: CostMonitor where
  "twoPending = run fixedPoint examplePrices NewCostMonitor
     [PodEvent Added pendingPodA, PodEvent Added runningPod, PodEvent Added pendingPodB]"

definition billedRun :: "activity list" where
  "billedRun = [NodeEvent Added m5Node, SlowTick, SlowTick, NodeEvent Deleted m5Node, SlowTick]"

section \<open>Properties of scenario validation\<close>

subsection \<open>Cluster object names\<close>

lemma strings_Replace_char:
  "strings_Replace s [a] [b] = map (\<lambda>c. if c = a then b else c) s"
proof (induction s)
  case Nil
  show ?case by simp
next
  case (Cons c s)
  then show ?case by (subst strings_Replace.simps) simp
qed

lemma K8sName_map:
  "K8sName d = ''ccmon-'' @ map (\<lambda>c. if c = CHR '' '' then CHR ''-'' else c) (Deployment.Name d)"
  unfolding K8sName_def by (simp only: strings_Replace_char) simp

text \<open>
  C10. The cluster object name of a workload spec is \<open>ccmon-\<close> followed by the spec's
  name with every space replaced by a hyphen. The mapping is not injective: the names
  \<open>a b\<close> and \<open>a-b\<close> are different, a scenario that has both passes validation, and
  both get the object name \<open>ccmon-a-b\<close>.
\<close>

theorem K8sName_not_injective:
  "K8sName d = ''ccmon-'' @ map (\<lambda>c. if c = CHR '' '' then CHR ''-'' else c) (Deployment.Name d)
   \<and> Deployment.Name spacedDeployment \<noteq> Deployment.Name hyphenDeployment
   \<and> K8sName spacedDeployment = K8sName hyphenDeployment
   \<and> (\<exists>s'. Validate P collidingScenario = Some (Inr s'))"
proof -
  have "Deployment.Name spacedDeployment \<noteq> Deployment.Name hyphenDeployment"
    by (simp add: spacedDeployment_def hyphenDeployment_def)
  moreover have "K8sName spacedDeployment = K8sName hyphenDeployment"
    by (simp add: K8sName_map spacedDeployment_def hyphenDeployment_def)
  moreover have "\<exists>s'. Validate P collidingScenario = Some (Inr s')"
    by (simp add: Validate_def collidingScenario_def spacedDeployment_def hyphenDeployment_def
        Second_def)
  ultimately show ?thesis
    using K8sName_map by blast
qed

theorem K8sName_not_injective_witness:
  "K8sName \<lparr>Deployment.Name = ''my app'', CPU = ''1'', Memory = ''1Gi''\<rparr> = ''ccmon-my-app''
   \<and> K8sName spacedDeployment = ''ccmon-a-b'' \<and> K8sName hyphenDeployment = ''ccmon-a-b''"
  using K8sName_not_injective [of "\<lparr>Deployment.Name = ''my app'', CPU = ''1'', Memory = ''1Gi''\<rparr>" "\<lambda>sel. None"]
    K8sName_not_injective [of hyphenDeployment "\<lambda>sel. None"]
  by (simp add: hyphenDeployment_def)

subsection \<open>The checks of \<open>Validate\<close>\<close>

lemma collectDeps_keys:
  "fst ` set (collectDeps deps m) = fst ` set m \<union> Deployment.Name ` set deps"
  by (induction deps arbitrary: m) (auto simp: dom_update image_iff)

lemma collectDeps_distinct:
  "distinct (map fst m) \<Longrightarrow> distinct (map fst (collectDeps deps m))"
  by (induction deps arbitrary: m) (auto simp: distinct_update)

lemma collectDeps_length:
  "length (collectDeps deps []) = card (Deployment.Name ` set deps)"
proof -
  have "distinct (map fst (collectDeps deps []))"
    by (rule collectDeps_distinct) simp
  then have "card (set (map fst (collectDeps deps []))) = length (map fst (collectDeps deps []))"
    by (rule distinct_card)
  then show ?thesis
    by (simp add: collectDeps_keys)
qed

lemma collectDeps_duplicates:
  "length (collectDeps deps []) \<noteq> length deps \<longleftrightarrow> \<not> distinct (map Deployment.Name deps)"
proof -
  have "card (set (map Deployment.Name deps)) = length (map Deployment.Name deps)
          \<longleftrightarrow> distinct (map Deployment.Name deps)"
    using card_distinct distinct_card by blast
  then show ?thesis
    by (simp add: collectDeps_length)
qed

lemma collectDeps_known:
  "map_of (collectDeps deps []) k = None \<longleftrightarrow> k \<notin> Deployment.Name ` set deps"
  using collectDeps_keys [of deps "[]"] by (simp add: map_of_eq_None_iff)

lemma resolveEvents_error:
  "(\<exists>e. resolveEvents m evs = Inl e) \<longleftrightarrow> (\<exists>ev \<in> set evs. map_of m (Event.Deployment ev) = None)"
  by (induction evs) (auto split: option.splits sum.splits)

lemma resolveEvents_times:
  "resolveEvents m evs = Inr evs' \<Longrightarrow> map Time evs' = map Time evs"
  by (induction evs arbitrary: evs') (auto split: option.splits sum.splits)

text \<open>
  \<open>Validate\<close> returns an error exactly for the scenarios that are to be rejected.
\<close>

lemma Validate_error_iff:
  "(\<exists>e. Validate P s = Some (Inl e)) \<longleftrightarrow> invalid P s"
proof -
  have r: "(\<exists>e. resolveEvents (collectDeps (Deployments s) []) (Events s) = Inl e) \<longleftrightarrow> unknownReference s"
    by (simp add: resolveEvents_error collectDeps_known unknownReference_def)
  show ?thesis
    using r collectDeps_duplicates [of "Deployments s"]
    unfolding Validate_def invalid_def selectorMalformed_def Let_def
    by (auto split: option.splits sum.splits)
qed

text \<open>Without a repeat interval, \<open>Validate\<close> returns, and succeeds on what it does not reject.\<close>

lemma Validate_no_repeat:
  "RepeatAfter s = None \<Longrightarrow> \<not> invalid P s \<Longrightarrow> \<exists>s'. Validate P s = Some (Inr s')"
proof -
  assume n: "RepeatAfter s = None" and v: "\<not> invalid P s"
  from n have "Validate P s \<noteq> None"
    unfolding Validate_def Let_def by (auto split: option.splits sum.splits)
  then obtain r where r: "Validate P s = Some r" by blast
  with v Validate_error_iff [of P s] show ?thesis by (cases r) auto
qed

subsection \<open>The repeat expansion\<close>

lemma replayEvents_zero:
  "\<forall>ev \<in> set evs. Time ev = 0 \<Longrightarrow> fst (replayEvents evs 0 newEvents) = 0"
  by (induction evs arbitrary: newEvents) (auto simp: wrap64_def Let_def)

text \<open>
  With a zero repeat interval and every event at offset zero, an iteration of the outer
  loop leaves \<open>nextStart\<close> at zero: the loop cannot return.
\<close>

lemma expandRepeats_stuck_aux:
  assumes "expandRepeats evs dur repeatAfter nextStart newEvents = Some r"
  shows "\<not> ((\<forall>ev \<in> set evs. Time ev = 0) \<and> repeatAfter = 0 \<and> nextStart = 0 \<and> 0 < dur)"
proof (rule expandRepeats.raw_induct
    [where P = "\<lambda>evs dur repeatAfter nextStart newEvents r.
       \<not> ((\<forall>ev \<in> set evs. Time ev = 0) \<and> repeatAfter = 0 \<and> nextStart = 0 \<and> 0 < dur)", OF _ assms])
  fix f evs dur repeatAfter nextStart newEvents r
  assume IH: "\<And>evs dur repeatAfter nextStart newEvents r.
       f evs dur repeatAfter nextStart newEvents = Some r \<Longrightarrow>
       \<not> ((\<forall>ev \<in> set evs. Time ev = 0) \<and> repeatAfter = 0 \<and> nextStart = 0 \<and> 0 < dur)"
    and body: "(if nextStart < dur
      then case replayEvents evs nextStart newEvents of
           (nextStart', newEvents') \<Rightarrow> f evs dur repeatAfter (wrap64 (nextStart' + repeatAfter)) newEvents'
      else Some newEvents) = Some r"
  show "\<not> ((\<forall>ev \<in> set evs. Time ev = 0) \<and> repeatAfter = 0 \<and> nextStart = 0 \<and> 0 < dur)"
  proof
    assume a: "(\<forall>ev \<in> set evs. Time ev = 0) \<and> repeatAfter = 0 \<and> nextStart = 0 \<and> 0 < dur"
    then have z: "fst (replayEvents evs 0 newEvents) = 0"
      by (simp add: replayEvents_zero)
    obtain n' ne' where p: "replayEvents evs 0 newEvents = (n', ne')"
      by (cases "replayEvents evs 0 newEvents")
    with z have "n' = 0" by simp
    with body a p have e: "f evs dur repeatAfter 0 ne' = Some r"
      by (simp add: wrap64_def)
    from IH [OF e] a show False by simp
  qed
qed

lemma expandRepeats_stuck:
  "\<forall>ev \<in> set evs. Time ev = 0 \<Longrightarrow> 0 < dur \<Longrightarrow> expandRepeats evs dur 0 0 newEvents = None"
  using expandRepeats_stuck_aux [of evs dur 0 0 newEvents]
  by (cases "expandRepeats evs dur 0 0 newEvents") auto

text \<open>
  With a bounded repeat interval the running \<open>nextStart\<close> grows by the positive
  interval in every iteration without wrapping around, so the loop ends.
\<close>

lemma wrap64_id: "is_int64 x \<Longrightarrow> wrap64 x = x"
  by (simp add: wrap64_def is_int64_def)

lemma replayEvents_sum:
  "\<forall>t \<in> set (map Time evs). 0 \<le> t \<Longrightarrow> - (2 ^ 63) \<le> nextStart \<Longrightarrow>
   nextStart + sum_list (map Time evs) < 2 ^ 63 \<Longrightarrow>
   fst (replayEvents evs nextStart newEvents) = nextStart + sum_list (map Time evs)"
proof (induction evs arbitrary: nextStart newEvents)
  case Nil
  show ?case by simp
next
  case (Cons ev evs)
  have "0 \<le> sum_list (map Time evs)"
    using Cons.prems(1) by (intro sum_list_nonneg) auto
  with Cons.prems have "is_int64 (nextStart + Time ev)"
    by (simp add: is_int64_def)
  then have w: "wrap64 (nextStart + Time ev) = nextStart + Time ev"
    by (rule wrap64_id)
  from Cons.prems have "fst (replayEvents evs (nextStart + Time ev) (newEvents @ [ev\<lparr>Time := nextStart + Time ev\<rparr>]))
      = nextStart + Time ev + sum_list (map Time evs)"
    by (intro Cons.IH) simp_all
  then show ?case by (simp add: w Let_def)
qed

lemma latestTime_bounds:
  "\<forall>t \<in> set (map Time evs). 0 \<le> t \<Longrightarrow> 0 \<le> n \<Longrightarrow>
   0 \<le> latestTime evs n \<and> latestTime evs n \<le> n + sum_list (map Time evs)"
proof (induction evs arbitrary: n)
  case Nil
  then show ?case by simp
next
  case (Cons ev evs)
  have s: "0 \<le> sum_list (map Time evs)"
    using Cons.prems(1) by (intro sum_list_nonneg) auto
  show ?case
  proof (cases "Time ev > n")
    case True
    with Cons.prems Cons.IH [of "Time ev"] s show ?thesis by simp
  next
    case False
    with Cons.prems Cons.IH [of n] s show ?thesis by simp
  qed
qed

lemma expandRepeats_returns:
  assumes "0 < repeatAfter" and "\<forall>t \<in> set (map Time evs). 0 \<le> t"
    and "max 0 dur + sum_list (map Time evs) + repeatAfter < 2 ^ 63"
  shows "- (2 ^ 63) \<le> nextStart \<Longrightarrow> \<exists>r. expandRepeats evs dur repeatAfter nextStart newEvents = Some r"
proof (induction "nat (dur - nextStart)" arbitrary: nextStart newEvents rule: less_induct)
  case less
  show ?case
  proof (cases "nextStart < dur")
    case False
    then show ?thesis by (subst expandRepeats.simps) simp
  next
    case True
    let ?T = "sum_list (map Time evs)"
    have T: "0 \<le> ?T"
      using assms(2) by (intro sum_list_nonneg) auto
    obtain n' ne' where r: "replayEvents evs nextStart newEvents = (n', ne')"
      by (cases "replayEvents evs nextStart newEvents")
    have "fst (replayEvents evs nextStart newEvents) = nextStart + ?T"
      using assms True less.prems by (intro replayEvents_sum) simp_all
    with r have n': "n' = nextStart + ?T" by simp
    from True assms less.prems T have "is_int64 (n' + repeatAfter)"
      by (simp add: is_int64_def n')
    then have w: "wrap64 (n' + repeatAfter) = n' + repeatAfter"
      by (rule wrap64_id)
    have "\<exists>r. expandRepeats evs dur repeatAfter (n' + repeatAfter) ne' = Some r"
      using True assms(1) T less.prems by (intro less.hyps) (simp_all add: n')
    with True r w show ?thesis
      by (subst expandRepeats.simps) simp
  qed
qed

text \<open>\<open>Validate\<close> returns, with success, on what it does not reject when the repeat interval is bounded.\<close>

lemma Validate_returns:
  assumes "\<not> invalid P s" and "repeatBounded s"
  shows "\<exists>s'. Validate P s = Some (Inr s')"
proof (cases "RepeatAfter s")
  case None
  with assms(1) show ?thesis by (simp add: Validate_no_repeat)
next
  case (Some repeatAfter)
  with assms(2) have pos: "0 < repeatAfter"
    and nonneg: "\<forall>t \<in> set (map Time (Events s)). 0 \<le> t"
    and bound: "max 0 (Duration s) + sum_list (map Time (Events s)) + repeatAfter < 2 ^ 63"
    by (simp_all add: repeatBounded_def)
  have ret: "expandRepeats evs (Duration s) repeatAfter
                 (wrap64 (latestTime evs 0 + repeatAfter)) [] \<noteq> None"
    if "resolveEvents (collectDeps (Deployments s) []) (Events s) = Inr evs" for evs
  proof -
    from that have t: "map Time evs = map Time (Events s)"
      by (rule resolveEvents_times)
    with nonneg have n: "\<forall>t \<in> set (map Time evs). 0 \<le> t" by simp
    from latestTime_bounds [OF n, of 0] pos
    have "- (2 ^ 63) \<le> wrap64 (latestTime evs 0 + repeatAfter)"
      by (simp add: wrap64_def)
    with pos n bound t
    have "\<exists>r. expandRepeats evs (Duration s) repeatAfter
                 (wrap64 (latestTime evs 0 + repeatAfter)) [] = Some r"
      by (intro expandRepeats_returns) simp_all
    then show ?thesis by auto
  qed
  have "Validate P s \<noteq> None"
    using Some ret
    unfolding Validate_def Let_def
    by (auto split: option.splits sum.splits)
  then obtain r where r: "Validate P s = Some r" by blast
  with assms(1) Validate_error_iff [of P s] show ?thesis by (cases r) auto
qed

lemma expand_two:
  assumes "Time e1 = 0" "Time e2 = 5 * Second"
  shows "expandRepeats [e1, e2] (30 * Second) (10 * Second)
           (wrap64 (latestTime [e1, e2] 0 + 10 * Second)) []
         = Some [e1\<lparr>Time := 15 * Second\<rparr>, e2\<lparr>Time := 20 * Second\<rparr>]"
  using assms
  by (simp add: expandRepeats.simps wrap64_def Second_def Let_def)

text \<open>
  C1, as the code has it. For every scenario with events at offsets 0s and 5s, total
  duration 30s and repeat interval 10s, \<open>Validate\<close> returns, and when it succeeds
  the events of the scenario are at exactly the offsets 0s, 5s, 15s, 20s: the first
  replay starts at 5s + 10s = 15s, and the second would start at 20s + 10s = 30s, which
  is not before the end. There is no event at 25s.
\<close>

theorem repeat_expansion_times:
  assumes "map Time (Events s) = [0, 5 * Second]"
    and "Duration s = 30 * Second"
    and "RepeatAfter s = Some (10 * Second)"
  shows "Validate P s \<noteq> None \<and>
         (\<forall>s'. Validate P s = Some (Inr s') \<longrightarrow>
               map Time (Events s') = [0, 5 * Second, 15 * Second, 20 * Second])"
proof -
  have *: "expandRepeats evs (30 * Second) (10 * Second) (wrap64 (latestTime evs 0 + 10 * Second)) []
            = Some [(evs ! 0)\<lparr>Time := 15 * Second\<rparr>, (evs ! 1)\<lparr>Time := 20 * Second\<rparr>]"
    if "map Time evs = [0, 5 * Second]" for evs :: "Event list"
  proof -
    from that obtain e1 e2 where "evs = [e1, e2]" "Time e1 = 0" "Time e2 = 5 * Second"
      by (auto simp: map_eq_Cons_conv)
    then show ?thesis using expand_two [of e1 e2] by simp
  qed
  have **: "map Time (sort_key Time (evs @ [(evs ! 0)\<lparr>Time := 15 * Second\<rparr>, (evs ! 1)\<lparr>Time := 20 * Second\<rparr>]))
             = [0, 5 * Second, 15 * Second, 20 * Second]"
    if "map Time evs = [0, 5 * Second]" for evs :: "Event list"
  proof -
    from that obtain e1 e2 where "evs = [e1, e2]" "Time e1 = 0" "Time e2 = 5 * Second"
      by (auto simp: map_eq_Cons_conv)
    then show ?thesis by (simp add: Second_def)
  qed
  show ?thesis
    using assms * ** resolveEvents_times [of "collectDeps (Deployments s) []" "Events s"]
    unfolding Validate_def Let_def
    by (auto split: option.splits sum.splits)
qed

text \<open>
  The example scenario passes validation and its events end at 0s, 5s, 15s, 20s.
\<close>

theorem repeat_expansion_witness:
  "validatedTimes (Validate (\<lambda>sel. None) repeatScenario)
     = Some [0, 5 * Second, 15 * Second, 20 * Second]"
proof -
  have v: "Validate (\<lambda>sel. None) repeatScenario \<noteq> None \<and>
         (\<forall>s'. Validate (\<lambda>sel. None) repeatScenario = Some (Inr s') \<longrightarrow>
               map Time (Events s') = [0, 5 * Second, 15 * Second, 20 * Second])"
    by (rule repeat_expansion_times)
       (simp_all add: repeatScenario_def scaleUp_def scaleDown_def)
  have "\<not> invalid (\<lambda>sel. None) repeatScenario"
    by (simp add: invalid_def unknownReference_def selectorMalformed_def repeatScenario_def
        scaleUp_def scaleDown_def webDeployment_def Second_def)
  then have "\<nexists>e. Validate (\<lambda>sel. None) repeatScenario = Some (Inl e)"
    by (simp add: Validate_error_iff)
  with v show ?thesis
    by (cases "Validate (\<lambda>sel. None) repeatScenario")
       (auto simp: validatedTimes_def split: sum.splits)
qed

text \<open>
  C1, as the specification states it, fails: the events of the example scenario after
  validation are not at 0s, 5s, 15s, 20s, 25s.
\<close>

theorem repeat_expansion_counterexample:
  "validatedTimes (Validate (\<lambda>sel. None) repeatScenario)
     \<noteq> Some [0, 5 * Second, 15 * Second, 20 * Second, 25 * Second]"
  by (simp add: Validate_def repeatScenario_def scaleUp_def scaleDown_def webDeployment_def
      validatedTimes_def Second_def expandRepeats.simps wrap64_def)

text \<open>
  C5 at the scenario with one event at offset 0s and \<open>repeatAfter: 0s\<close>: none of the
  six reasons to reject it holds, and \<open>Validate\<close> does not return, neither with an
  error nor with success. (\<open>Validate_error_iff\<close> is the part of C5 that holds for every
  scenario, \<open>Validate_returns\<close> the success with no or with a bounded repeat interval.)
\<close>

theorem Validate_zero_repeat_hangs:
  "\<not> invalid P zeroRepeatScenario \<and> Validate P zeroRepeatScenario = None"
proof -
  have "expandRepeats [scaleUp\<lparr>deployment := Some webDeployment\<rparr>] (30 * Second) 0 0 [] = None"
    by (rule expandRepeats_stuck) (simp_all add: scaleUp_def Second_def)
  then show ?thesis
    by (simp add: invalid_def unknownReference_def selectorMalformed_def Validate_def
      zeroRepeatScenario_def scaleUp_def webDeployment_def Second_def wrap64_def)
qed

theorem Validate_zero_repeat_hangs_witness:
  "Validate (\<lambda>sel. None) zeroRepeatScenario = None
   \<and> Scenario.Name zeroRepeatScenario \<noteq> [] \<and> Duration zeroRepeatScenario \<noteq> 0
   \<and> Events zeroRepeatScenario \<noteq> []"
  using Validate_zero_repeat_hangs [of "\<lambda>sel. None"]
  by (simp add: invalid_def)

text \<open>What a returned validation leaves in \<open>Events\<close>: the events given, with the
  copies of the repeat expansion if there is one, sorted by time.\<close>

lemma map_insort_key: "map f (insort_key f x xs) = insort (f x) (map f xs)"
  by (induction xs) auto

lemma map_sort_key: "map f (sort_key f xs) = sort (map f xs)"
  by (induction xs) (auto simp: map_insort_key)

lemma Validate_result:
  assumes "Validate P s = Some (Inr s')"
  shows "\<exists>evs newEvents. map Time evs = map Time (Events s)
           \<and> Events s' = sort_key Time (evs @ newEvents)
           \<and> (RepeatAfter s = None \<longrightarrow> newEvents = [])"
proof -
  obtain evs where evs: "resolveEvents (collectDeps (Deployments s) []) (Events s) = Inr evs"
    using assms unfolding Validate_def Let_def
    by (auto split: option.splits sum.splits if_splits)
  then have t: "map Time evs = map Time (Events s)"
    by (rule resolveEvents_times)
  have "\<exists>newEvents. Events s' = sort_key Time (evs @ newEvents)
           \<and> (RepeatAfter s = None \<longrightarrow> newEvents = [])"
    using assms evs unfolding Validate_def Let_def
    by (auto split: option.splits sum.splits if_splits)
  then obtain newEvents where "Events s' = sort_key Time (evs @ newEvents)"
    and "RepeatAfter s = None \<longrightarrow> newEvents = []"
    by (elim exE conjE)
  with t show ?thesis
    by (intro exI [of _ evs] exI [of _ newEvents] conjI)
qed

text \<open>
  C9. After a successful validation, with or without repeat expansion, the events of the
  scenario are in non-decreasing order of their time offsets; \<open>Runner.Execute\<close> walks
  them in that order. Whatever \<open>Validate\<close> returns as a scenario is sorted; and a
  scenario that passes the checks and whose repeat expansion stays in range is returned,
  sorted, with every time offset it was given still present, and with exactly the given
  offsets, sorted, when there is no \<open>repeatAfter\<close>.
\<close>

theorem validated_events_sorted:
  "(Validate P s = Some (Inr s') \<longrightarrow> sorted (map Time (Events s')))
   \<and> (\<not> invalid P s \<and> repeatBounded s \<longrightarrow>
        (\<exists>r. Validate P s = Some (Inr r) \<and> sorted (map Time (Events r))
            \<and> set (map Time (Events s)) \<subseteq> set (map Time (Events r))
            \<and> (RepeatAfter s = None \<longrightarrow> map Time (Events r) = sort (map Time (Events s)))))"
proof -
  have srt: "sorted (map Time (Events r))"
    and sub: "set (map Time (Events s)) \<subseteq> set (map Time (Events r))"
    and same: "RepeatAfter s = None \<longrightarrow> map Time (Events r) = sort (map Time (Events s))"
    if "Validate P s = Some (Inr r)" for r
  proof -
    from Validate_result [OF that] obtain evs newEvents
      where t: "map Time evs = map Time (Events s)"
        and e: "Events r = sort_key Time (evs @ newEvents)"
        and n: "RepeatAfter s = None \<longrightarrow> newEvents = []"
      by (elim exE conjE)
    show "sorted (map Time (Events r))"
      by (simp only: e sorted_sort_key)
    have "set (map Time (Events r)) = set (map Time evs) \<union> set (map Time newEvents)"
      by (simp add: e image_Un)
    then show "set (map Time (Events s)) \<subseteq> set (map Time (Events r))"
      by (simp add: t [symmetric])
    show "RepeatAfter s = None \<longrightarrow> map Time (Events r) = sort (map Time (Events s))"
      using n by (auto simp: e map_sort_key t)
  qed
  show ?thesis
  proof (intro conjI impI)
    assume "Validate P s = Some (Inr s')"
    then show "sorted (map Time (Events s'))" by (rule srt)
  next
    assume "\<not> invalid P s \<and> repeatBounded s"
    then have "\<exists>r. Validate P s = Some (Inr r)"
      using Validate_returns [of P s] by simp
    then obtain r where r: "Validate P s = Some (Inr r)" ..
    from r srt [OF r] sub [OF r] same [OF r]
    show "\<exists>r. Validate P s = Some (Inr r) \<and> sorted (map Time (Events r))
            \<and> set (map Time (Events s)) \<subseteq> set (map Time (Events r))
            \<and> (RepeatAfter s = None \<longrightarrow> map Time (Events r) = sort (map Time (Events s)))"
      by (intro exI [of _ r] conjI)
  qed
qed

text \<open>
  Events written as 5s, 0s, repeating after 10s in a scenario of 30s, pass the checks and
  come out as 0s, 5s, 20s, 20s; without the repeat they come out as 0s, 5s.
\<close>

theorem validated_events_sorted_witness:
  "map Time (Events reversedScenario) = [5 * Second, 0]
   \<and> (\<exists>r. Validate (\<lambda>sel. None) reversedScenario = Some (Inr r)
        \<and> sorted (map Time (Events r))
        \<and> map Time (Events r) = [0, 5 * Second, 20 * Second, 20 * Second])
   \<and> validatedTimes (Validate (\<lambda>sel. None) (reversedScenario\<lparr>RepeatAfter := None\<rparr>))
       = Some [0, 5 * Second]"
proof -
  have v: "\<not> invalid (\<lambda>sel. None) reversedScenario"
    by (simp add: invalid_def unknownReference_def selectorMalformed_def reversedScenario_def
        scaleUp_def scaleDown_def webDeployment_def Second_def)
  have b: "repeatBounded reversedScenario"
    by (simp add: repeatBounded_def reversedScenario_def scaleUp_def scaleDown_def Second_def)
  from v b have "\<not> invalid (\<lambda>sel. None) reversedScenario \<and> repeatBounded reversedScenario" ..
  from validated_events_sorted [of "\<lambda>sel. None" reversedScenario reversedScenario,
      THEN conjunct2, THEN mp, OF this]
  obtain r where r: "Validate (\<lambda>sel. None) reversedScenario = Some (Inr r)"
    and s: "sorted (map Time (Events r))"
    by (elim conjE exE)
  have "validatedTimes (Validate (\<lambda>sel. None) reversedScenario)
          = Some [0, 5 * Second, 20 * Second, 20 * Second]"
    by (simp add: Validate_def reversedScenario_def scaleUp_def scaleDown_def webDeployment_def
      validatedTimes_def Second_def expandRepeats.simps wrap64_def)
  with r have t: "map Time (Events r) = [0, 5 * Second, 20 * Second, 20 * Second]"
    by (simp add: validatedTimes_def)
  have e: "map Time (Events reversedScenario) = [5 * Second, 0]"
    by (simp add: reversedScenario_def scaleUp_def scaleDown_def)
  have n: "validatedTimes (Validate (\<lambda>sel. None) (reversedScenario\<lparr>RepeatAfter := None\<rparr>))
       = Some [0, 5 * Second]"
    by (simp add: Validate_def reversedScenario_def scaleUp_def scaleDown_def webDeployment_def
      validatedTimes_def Second_def)
  from r s t e n show ?thesis
    by (intro exI [of _ r] conjI)
qed

section \<open>Properties of the scale update\<close>









section \<open>Properties of the cost monitor\<close>

subsection \<open>The example roundings\<close>

lemma rounding_exact: "rounding exact"
  by (simp add: rounding_def exact_def)

lemma exactQuarters_exact: "exactQuarters exact"
  by (simp add: exactQuarters_def exact_def)

lemma roundsWithin_exact: "roundsWithin 0 lo hi exact"
  by (simp add: roundsWithin_def exact_def)

lemma roundsWithin_overshoot: "roundsWithin (1 / 2 ^ 53) (1 / 2 ^ 1022) (2 ^ 1023) overshoot"
proof -
  have "(1 - 1 / 2 ^ 53) * x \<le> x * (1 + 1 / 2 ^ 53)" if "1 / 2 ^ 1022 \<le> x" for x :: real
  proof -
    have "(0::real) \<le> 1 / 2 ^ 1022" by simp
    from this that have "0 \<le> x" by (rule order_trans)
    then have "(1 - 1 / 2 ^ 53) * x \<le> (1 + 1 / 2 ^ 53) * x"
      by (intro mult_right_mono) simp_all
    then show ?thesis by (simp add: mult.commute)
  qed
  then show ?thesis
    by (simp add: roundsWithin_def overshoot_def mult.commute)
qed

lemma fixedPoint_of_int: "fixedPoint (real_of_int k / 2 ^ 40) = real_of_int k / 2 ^ 40"
proof -
  have "\<lfloor>real_of_int k + 1 / 2\<rfloor> = k" by linarith
  then show ?thesis by (simp add: fixedPoint_def)
qed

lemma rounding_fixedPoint: "rounding fixedPoint"
proof -
  have "fixedPoint x \<le> fixedPoint y" if "x \<le> y" for x y
    using that by (simp add: fixedPoint_def divide_right_mono floor_mono)
  moreover have "fixedPoint 0 = 0"
    by (simp add: fixedPoint_def)
  moreover have "fixedPoint (fixedPoint x) = fixedPoint x" for x
    unfolding fixedPoint_def [of x] by (rule fixedPoint_of_int)
  ultimately show ?thesis by (simp add: rounding_def)
qed

lemma exactQuarters_fixedPoint: "exactQuarters fixedPoint"
proof -
  have "fixedPoint (real_of_int k / 4) = real_of_int k / 4" for k
    using fixedPoint_of_int [of "k * 2 ^ 38"] by simp
  then show ?thesis by (simp add: exactQuarters_def)
qed

subsection \<open>What each activity changes\<close>

lemma countPending_acc:
  "countPending ps n = n + int (length (filter (\<lambda>(uid, p). Phase p = PodPending) ps))"
  by (induction ps arbitrary: n) auto

lemma run_Nil [simp]: "run fl pprov c [] = c"
  by (simp add: run_def)

lemma run_Cons [simp]: "run fl pprov c (a # acts) = run fl pprov (step fl pprov c a) acts"
  by (simp add: run_def)

lemma frame_nodes [simp]:
  "nodes (updatePod c pod) = nodes c"
  "nodes (deletePod c pod) = nodes c"
  "nodes (monitorPendingPods_tick fl c) = nodes c"
  "nodes (logCost_tick fl c) = nodes c"
  by (simp_all add: updatePod_def deletePod_def monitorPendingPods_tick_def logCost_tick_def Let_def)

lemma frame_nodePrices [simp]:
  "nodePrices (updatePod c pod) = nodePrices c"
  "nodePrices (deletePod c pod) = nodePrices c"
  "nodePrices (monitorPendingPods_tick fl c) = nodePrices c"
  "nodePrices (logCost_tick fl c) = nodePrices c"
  by (simp_all add: updatePod_def deletePod_def monitorPendingPods_tick_def logCost_tick_def Let_def)

lemma tick_pendingPods: "pendingPods (monitorPendingPods_tick fl c) = pendingCount c"
  by (simp add: monitorPendingPods_tick_def Let_def countPending_acc pendingCount_def)

lemma tick_pendingPodSeconds:
  "pendingPodSeconds (monitorPendingPods_tick fl c)
     = fl (pendingPodSeconds c + fl (fl (real_of_int (pendingCount c)) * 0.25))"
  by (simp add: monitorPendingPods_tick_def Let_def countPending_acc pendingCount_def)

lemma step_pendingPodSeconds:
  "a \<noteq> FastTick \<Longrightarrow> pendingPodSeconds (step fl pprov c a) = pendingPodSeconds c"
  by (cases "(fl, pprov, c, a)" rule: step.cases)
     (auto simp: addNode_def removeNode_def updatePod_def deletePod_def logCost_tick_def Let_def
           split: option.splits)

lemma step_cumulativeCost:
  "a \<noteq> SlowTick \<Longrightarrow> cumulativeCost (step fl pprov c a) = cumulativeCost c"
  by (cases "(fl, pprov, c, a)" rule: step.cases)
     (auto simp: addNode_def removeNode_def updatePod_def deletePod_def
           monitorPendingPods_tick_def Let_def split: option.splits)

lemma tick_cumulativeCost:
  "cumulativeCost (logCost_tick fl c) = fl (cumulativeCost c + fl (perHourCost fl c / 3600))"
  by (simp add: logCost_tick_def)

subsection \<open>Prices and tracked nodes\<close>

lemma keys_delete: "fst ` set (AList.delete k al) = fst ` set al - {k}"
  by (induction al) auto

lemma pricesTracked_addNode: "pricesTracked c \<Longrightarrow> pricesTracked (addNode pprov c node)"
  by (auto simp: pricesTracked_def addNode_def Let_def dom_update split: option.splits)

lemma pricesTracked_removeNode: "pricesTracked c \<Longrightarrow> pricesTracked (removeNode c node)"
  by (auto simp: pricesTracked_def removeNode_def keys_delete)

lemma pricesTracked_step: "pricesTracked c \<Longrightarrow> pricesTracked (step fl pprov c a)"
  by (cases "(fl, pprov, c, a)" rule: step.cases)
     (simp_all add: pricesTracked_addNode pricesTracked_removeNode, simp_all add: pricesTracked_def)

lemma pricesTracked_run: "pricesTracked c \<Longrightarrow> pricesTracked (run fl pprov c acts)"
  by (induction acts arbitrary: c) (auto simp: pricesTracked_step)

text \<open>
  C8. The keys of the price map are names of tracked nodes: in the monitor as it is
  built, after \<open>addNode\<close>, after \<open>removeNode\<close> and after every other activity when it
  held before, hence in every monitor a run reaches. \<open>addNode\<close> tracks the node whose
  price it may record; \<open>removeNode\<close> drops the node and its price.
\<close>

theorem price_keys_tracked:
  "pricesTracked NewCostMonitor
   \<and> (pricesTracked c \<longrightarrow>
        pricesTracked (addNode pprov c node) \<and> pricesTracked (removeNode c node)
        \<and> pricesTracked (step fl pprov c a))
   \<and> Node.Name node \<in> fst ` set (nodes (addNode pprov c node))
   \<and> Node.Name node \<notin> fst ` set (nodes (removeNode c node))
   \<and> nodePrices (removeNode c node) (Node.Name node) = None
   \<and> pricesTracked (run fl pprov NewCostMonitor acts)"
proof -
  have init: "pricesTracked NewCostMonitor"
    by (simp add: pricesTracked_def NewCostMonitor_def)
  have "Node.Name node \<in> fst ` set (nodes (addNode pprov c node))"
    by (simp add: addNode_def Let_def dom_update split: option.splits)
  moreover have "Node.Name node \<notin> fst ` set (nodes (removeNode c node))"
    by (simp add: removeNode_def keys_delete)
  moreover have "nodePrices (removeNode c node) (Node.Name node) = None"
    by (simp add: removeNode_def)
  ultimately show ?thesis
    using init pricesTracked_addNode pricesTracked_removeNode pricesTracked_step
      pricesTracked_run [OF init]
    by blast
qed

theorem price_keys_tracked_witness:
  "pricesTracked (addNode examplePrices NewCostMonitor m5Node)
   \<and> pricesTracked (removeNode (addNode examplePrices NewCostMonitor m5Node) m5Node)
   \<and> pricesTracked (addNode examplePrices (addNode examplePrices NewCostMonitor m5Node) unlabelledNode)
   \<and> dom (nodePrices (addNode examplePrices (addNode examplePrices NewCostMonitor m5Node) unlabelledNode))
       = {''node-1''}"
proof -
  from price_keys_tracked [of NewCostMonitor examplePrices m5Node]
  have first: "pricesTracked (addNode examplePrices NewCostMonitor m5Node)"
    by simp
  with price_keys_tracked [of "addNode examplePrices NewCostMonitor m5Node" examplePrices m5Node]
  have second: "pricesTracked (removeNode (addNode examplePrices NewCostMonitor m5Node) m5Node)"
    by simp
  from first price_keys_tracked [of "addNode examplePrices NewCostMonitor m5Node" examplePrices unlabelledNode]
  have third: "pricesTracked (addNode examplePrices (addNode examplePrices NewCostMonitor m5Node) unlabelledNode)"
    by simp
  have "dom (nodePrices (addNode examplePrices (addNode examplePrices NewCostMonitor m5Node) unlabelledNode))
       = {''node-1''}"
    by (simp add: addNode_def Let_def examplePrices_def m5Node_def unlabelledNode_def labelAt_def
        NewCostMonitor_def LabelInstanceTypeStable_def)
  with first second third show ?thesis by simp
qed

subsection \<open>Pending-pod seconds\<close>

lemma pendingCount_nonneg: "0 \<le> pendingCount c"
  by (simp add: pendingCount_def)

lemma exactQuartersD:
  "exactQuarters fl \<Longrightarrow> 0 \<le> k \<Longrightarrow> k \<le> 2 ^ 53 \<Longrightarrow> fl (real_of_int k / 4) = real_of_int k / 4"
  by (simp add: exactQuarters_def)

lemma tick_exact:
  assumes "exactQuarters fl" and "pendingPodSeconds c = real_of_int k / 4" and "0 \<le> k"
    and "k + pendingCount c \<le> 2 ^ 51"
  shows "pendingPodSeconds (monitorPendingPods_tick fl c) = real_of_int (k + pendingCount c) / 4"
proof -
  let ?n = "pendingCount c"
  have n: "0 \<le> ?n" by (rule pendingCount_nonneg)
  have "fl (real_of_int (4 * ?n) / 4) = real_of_int (4 * ?n) / 4"
    using assms n by (intro exactQuartersD) simp_all
  then have conv: "fl (real_of_int ?n) = real_of_int ?n" by simp
  have mul: "fl (real_of_int ?n * 0.25) = real_of_int ?n / 4"
    using exactQuartersD [OF assms(1), of ?n] assms n by simp
  have "fl (real_of_int (k + ?n) / 4) = real_of_int (k + ?n) / 4"
    using assms n by (intro exactQuartersD) simp_all
  then have add: "fl (real_of_int k / 4 + real_of_int ?n / 4) = real_of_int (k + ?n) / 4"
    by (simp add: add_divide_distrib)
  show ?thesis
    by (simp only: tick_pendingPodSeconds conv mul assms(2) add)
qed

text \<open>
  C3. When the number of pending pods is \<open>count\<close> at each tick of the fast timer in a
  run, the run adds exactly \<open>N \<times> count \<times> 0.25\<close> to \<open>pendingPodSeconds\<close>, where \<open>N\<close> is
  the number of ticks of the fast timer in the run (whatever else happens between them);
  and each tick sets \<open>pendingPods\<close> to the number of pending pods among the tracked
  pods. The sums are multiples of a quarter, which \<open>float64\<close> holds exactly: the
  accumulator starts at \<open>k / 4\<close> and ends at no more than \<open>2 ^ 51 / 4\<close>.
\<close>

theorem pendingPodSeconds_held:
  assumes "exactQuarters fl"
    and "pendingHeld fl pprov count c acts"
    and "pendingPodSeconds c = real_of_int k / 4" and "0 \<le> k"
    and "k + int (length (filter (\<lambda>a. a = FastTick) acts)) * count \<le> 2 ^ 51"
  shows "pendingPodSeconds (run fl pprov c acts)
           = pendingPodSeconds c
             + real (length (filter (\<lambda>a. a = FastTick) acts)) * real_of_int count * fastIntervalSeconds
         \<and> pendingPods (monitorPendingPods_tick fl c) = pendingCount c"
proof -
  have "pendingPodSeconds (run fl pprov c acts)
           = real_of_int (k + int (length (filter (\<lambda>a. a = FastTick) acts)) * count) / 4"
    using assms(2-5)
  proof (induction acts arbitrary: c k)
    case Nil
    then show ?case by simp
  next
    case (Cons a acts)
    let ?N = "int (length (filter (\<lambda>a. a = FastTick) acts))"
    show ?case
    proof (cases "a = FastTick")
      case True
      with Cons.prems have cnt: "pendingCount c = count"
        and held: "pendingHeld fl pprov count (monitorPendingPods_tick fl c) acts"
        by simp_all
      from True Cons.prems(4) have bound: "k + (?N + 1) * count \<le> 2 ^ 51"
        by (simp add: algebra_simps)
      have c0: "0 \<le> count" using cnt pendingCount_nonneg [of c] by simp
      then have "0 \<le> ?N * count" by simp
      with bound have b1: "k + pendingCount c \<le> 2 ^ 51"
        by (simp add: cnt algebra_simps)
      have t: "pendingPodSeconds (monitorPendingPods_tick fl c) = real_of_int (k + count) / 4"
        using tick_exact [OF assms(1) Cons.prems(2,3) b1] by (simp add: cnt)
      have "pendingPodSeconds (run fl pprov (monitorPendingPods_tick fl c) acts)
              = real_of_int (k + count + ?N * count) / 4"
        using held t Cons.prems(3) c0 bound
        by (intro Cons.IH) (simp_all add: algebra_simps)
      with True show ?thesis by (simp add: algebra_simps)
    next
      case False
      with Cons.prems have "pendingPodSeconds (run fl pprov (step fl pprov c a) acts)
              = real_of_int (k + ?N * count) / 4"
        by (intro Cons.IH) (simp_all add: step_pendingPodSeconds)
      with False show ?thesis by simp
    qed
  qed
  then show ?thesis
    by (simp add: assms(3) tick_pendingPods fastIntervalSeconds_def algebra_simps add_divide_distrib)
qed

theorem pendingPodSeconds_held_witness:
  "pendingPodSeconds (run fixedPoint examplePrices twoPending [FastTick, SlowTick, FastTick, FastTick, FastTick]) = 2
   \<and> pendingCount twoPending = 2"
proof -
  have c: "pendingCount twoPending = 2"
    by (simp add: twoPending_def pendingCount_def updatePod_def NewCostMonitor_def
        pendingPodA_def pendingPodB_def runningPod_def PodPending_def)
  have p: "pendingCount (logCost_tick fl c) = pendingCount c"
       "pendingCount (monitorPendingPods_tick fl c) = pendingCount c" for c fl
    by (simp_all add: pendingCount_def logCost_tick_def monitorPendingPods_tick_def Let_def)
  have h: "pendingHeld fixedPoint examplePrices 2 twoPending [FastTick, SlowTick, FastTick, FastTick, FastTick]"
    by (simp add: c p)
  have z: "pendingPodSeconds twoPending = real_of_int 0 / 4"
    by (simp add: twoPending_def updatePod_def NewCostMonitor_def)
  have b: "0 + int (length (filter (\<lambda>a. a = FastTick) [FastTick, SlowTick, FastTick, FastTick, FastTick])) * 2
      \<le> (2::int) ^ 51"
    by simp
  from pendingPodSeconds_held [OF exactQuarters_fixedPoint h z _ b] z c show ?thesis
    by (simp add: fastIntervalSeconds_def)
qed

subsection \<open>Accumulators never decrease\<close>

lemma roundingD:
  assumes "rounding fl"
  shows "x \<le> y \<Longrightarrow> fl x \<le> fl y" and "fl 0 = 0" and "fl (fl x) = fl x"
  using assms by (simp_all add: rounding_def)

lemma rounding_nonneg: "rounding fl \<Longrightarrow> 0 \<le> x \<Longrightarrow> 0 \<le> fl x"
  using roundingD(1) [of fl 0 x] roundingD(2) [of fl] by simp

lemma priceAt_nonneg: "pricesNonneg c \<Longrightarrow> 0 \<le> priceAt (nodePrices c) k"
  by (auto simp: pricesNonneg_def priceAt_def split: option.splits)

lemma sumPrices_nonneg:
  "rounding fl \<Longrightarrow> pricesNonneg c \<Longrightarrow> 0 \<le> acc \<Longrightarrow> 0 \<le> sumPrices fl ns (nodePrices c) acc"
proof (induction ns arbitrary: acc)
  case Nil
  then show ?case by simp
next
  case (Cons x ns)
  obtain name n where x: "x = (name, n)" by (cases x)
  from Cons.prems have "0 \<le> fl (acc + priceAt (nodePrices c) (Node.Name n))"
    by (intro rounding_nonneg [of fl]) (simp_all add: priceAt_nonneg)
  with Cons.prems show ?case
    by (simp add: x Cons.IH)
qed

lemma perHourCost_nonneg: "rounding fl \<Longrightarrow> pricesNonneg c \<Longrightarrow> 0 \<le> perHourCost fl c"
  by (simp add: perHourCost_def sumPrices_nonneg)

lemma pricesNonneg_step:
  "nonnegPrices pprov \<Longrightarrow> pricesNonneg c \<Longrightarrow> pricesNonneg (step fl pprov c a)"
  by (cases "(fl, pprov, c, a)" rule: step.cases)
     (auto simp: pricesNonneg_def nonnegPrices_def addNode_def removeNode_def Let_def
           split: option.splits if_splits)

lemma stored_step: "rounding fl \<Longrightarrow> stored fl c \<Longrightarrow> stored fl (step fl pprov c a)"
  by (cases "(fl, pprov, c, a)" rule: step.cases)
     (auto simp: stored_def roundingD(3) addNode_def removeNode_def updatePod_def deletePod_def
           monitorPendingPods_tick_def logCost_tick_def Let_def split: option.splits)

lemma step_mono:
  assumes "rounding fl" and "pricesNonneg c" and "stored fl c"
  shows "cumulativeCost c \<le> cumulativeCost (step fl pprov c a)"
    and "pendingPodSeconds c \<le> pendingPodSeconds (step fl pprov c a)"
proof -
  show "cumulativeCost c \<le> cumulativeCost (step fl pprov c a)"
  proof (cases "a = SlowTick")
    case True
    have "0 \<le> fl (perHourCost fl c / 3600)"
      using assms by (intro rounding_nonneg [of fl]) (simp_all add: perHourCost_nonneg)
    then have "fl (cumulativeCost c) \<le> fl (cumulativeCost c + fl (perHourCost fl c / 3600))"
      by (intro roundingD(1) [OF assms(1)]) simp
    with True assms(3) show ?thesis
      by (simp add: tick_cumulativeCost stored_def)
  next
    case False
    then show ?thesis by (simp add: step_cumulativeCost)
  qed
  show "pendingPodSeconds c \<le> pendingPodSeconds (step fl pprov c a)"
  proof (cases "a = FastTick")
    case True
    have "0 \<le> fl (real_of_int (pendingCount c))"
      using assms(1) by (intro rounding_nonneg [of fl]) (simp_all add: pendingCount_nonneg)
    then have "0 \<le> fl (fl (real_of_int (pendingCount c)) * 0.25)"
      using assms(1) by (intro rounding_nonneg [of fl]) simp_all
    then have "fl (pendingPodSeconds c)
        \<le> fl (pendingPodSeconds c + fl (fl (real_of_int (pendingCount c)) * 0.25))"
      by (intro roundingD(1) [OF assms(1)]) simp
    with True assms(3) show ?thesis
      by (simp add: tick_pendingPodSeconds stored_def)
  next
    case False
    then show ?thesis by (simp add: step_pendingPodSeconds)
  qed
qed

lemma samples_mono:
  assumes "rounding fl" and "nonnegPrices pprov"
  shows "pricesNonneg c \<Longrightarrow> stored fl c \<Longrightarrow> c' \<in> set (samples fl pprov c acts) \<Longrightarrow>
         cumulativeCost c \<le> cumulativeCost c' \<and> pendingPodSeconds c \<le> pendingPodSeconds c'"
proof (induction acts arbitrary: c)
  case Nil
  then show ?case by simp
next
  case (Cons a acts)
  show ?case
  proof (cases "c' = c")
    case True
    then show ?thesis by simp
  next
    case False
    with Cons.prems have in_rest: "c' \<in> set (samples fl pprov (step fl pprov c a) acts)" by simp
    have n: "pricesNonneg (step fl pprov c a)"
      using assms(2) Cons.prems(1) by (rule pricesNonneg_step)
    have s: "stored fl (step fl pprov c a)"
      using assms(1) Cons.prems(2) by (rule stored_step)
    from Cons.IH [OF n s in_rest] step_mono [OF assms(1) Cons.prems(1,2), of pprov a]
    show ?thesis by linarith
  qed
qed

lemma samples_sorted:
  assumes "rounding fl" and "nonnegPrices pprov"
  shows "pricesNonneg c \<Longrightarrow> stored fl c \<Longrightarrow>
         sorted (map cumulativeCost (samples fl pprov c acts))
         \<and> sorted (map pendingPodSeconds (samples fl pprov c acts))"
proof (induction acts arbitrary: c)
  case Nil
  show ?case by simp
next
  case (Cons a acts)
  have n: "pricesNonneg (step fl pprov c a)"
    using assms(2) Cons.prems(1) by (rule pricesNonneg_step)
  have s: "stored fl (step fl pprov c a)"
    using assms(1) Cons.prems(2) by (rule stored_step)
  have "\<forall>c' \<in> set (samples fl pprov (step fl pprov c a) acts).
          cumulativeCost c \<le> cumulativeCost c' \<and> pendingPodSeconds c \<le> pendingPodSeconds c'"
  proof
    fix c' assume "c' \<in> set (samples fl pprov (step fl pprov c a) acts)"
    from samples_mono [OF assms n s this] step_mono [OF assms(1) Cons.prems, of pprov a]
    show "cumulativeCost c \<le> cumulativeCost c' \<and> pendingPodSeconds c \<le> pendingPodSeconds c'"
      by linarith
  qed
  with Cons.IH [OF n s] show ?case by simp
qed

text \<open>
  C4. When the oracle has no negative price, the values of \<open>cumulativeCost\<close> and of
  \<open>pendingPodSeconds\<close> along a run of a new monitor, taken after every activity, are
  non-decreasing; and one activity never lowers either of them in a monitor whose
  recorded prices are non-negative. All that is used of the rounding is that it keeps
  the order, zero and the stored values.
\<close>

theorem accumulators_nondecreasing:
  assumes "rounding fl" and "nonnegPrices pprov"
  shows "sorted (map cumulativeCost (samples fl pprov NewCostMonitor acts))
         \<and> sorted (map pendingPodSeconds (samples fl pprov NewCostMonitor acts))
         \<and> (pricesNonneg c \<and> stored fl c \<longrightarrow>
              cumulativeCost c \<le> cumulativeCost (step fl pprov c a)
              \<and> pendingPodSeconds c \<le> pendingPodSeconds (step fl pprov c a))"
proof -
  have "pricesNonneg NewCostMonitor"
    by (simp add: pricesNonneg_def NewCostMonitor_def)
  moreover have "stored fl NewCostMonitor"
    using assms(1) by (simp add: stored_def NewCostMonitor_def roundingD(2))
  ultimately show ?thesis
    using samples_sorted [OF assms] step_mono [OF assms(1)] by blast
qed

theorem accumulators_nondecreasing_witness:
  "sorted (map cumulativeCost (samples fixedPoint examplePrices NewCostMonitor billedRun))
   \<and> sorted (map pendingPodSeconds (samples fixedPoint examplePrices NewCostMonitor billedRun))
   \<and> cumulativeCost NewCostMonitor \<le> cumulativeCost (step fixedPoint examplePrices NewCostMonitor SlowTick)"
proof -
  have n: "nonnegPrices examplePrices"
    by (simp add: nonnegPrices_def examplePrices_def)
  have "pricesNonneg NewCostMonitor"
    by (simp add: pricesNonneg_def NewCostMonitor_def)
  moreover have "stored fixedPoint NewCostMonitor"
    by (simp add: stored_def NewCostMonitor_def fixedPoint_def)
  ultimately show ?thesis
    using accumulators_nondecreasing [OF rounding_fixedPoint n, of billedRun NewCostMonitor SlowTick]
    by simp
qed

subsection \<open>Rounding errors\<close>

lemma roundsWithinD:
  assumes "roundsWithin u lo hi fl"
  shows "0 \<le> u" and "u < 1"
    and "lo \<le> x \<Longrightarrow> x \<le> hi \<Longrightarrow> (1 - u) * x \<le> fl x"
    and "lo \<le> x \<Longrightarrow> x \<le> hi \<Longrightarrow> fl x \<le> (1 + u) * x"
    and "fl 0 = 0"
  using assms by (simp_all add: roundsWithin_def)

lemma roundings_nonneg:
  "0 \<le> u \<Longrightarrow> u < 1 \<Longrightarrow> 0 \<le> x \<Longrightarrow> roundings u k x' x \<Longrightarrow> 0 \<le> x'"
proof -
  assume "0 \<le> u" "u < 1" "0 \<le> x" "roundings u k x' x"
  then have "0 \<le> (1 - u) ^ k * x" by simp
  with \<open>roundings u k x' x\<close> show ?thesis by (simp add: roundings_def)
qed

lemma roundings_refl: "roundings u 0 x x"
  by (simp add: roundings_def)

lemma roundings_mono:
  assumes "0 \<le> u" and "u < 1" and "0 \<le> x" and "k \<le> k'" and "roundings u k x' x"
  shows "roundings u k' x' x"
proof -
  have "(1 - u) ^ k' \<le> (1 - u) ^ k"
    using assms by (intro power_decreasing) simp_all
  then have lo: "(1 - u) ^ k' * x \<le> (1 - u) ^ k * x"
    using assms(3) by (rule mult_right_mono)
  have "(1 + u) ^ k \<le> (1 + u) ^ k'"
    using assms by (intro power_increasing) simp_all
  then have hi: "(1 + u) ^ k * x \<le> (1 + u) ^ k' * x"
    using assms(3) by (rule mult_right_mono)
  from lo hi assms(5) show ?thesis by (simp add: roundings_def)
qed

lemma roundings_fl:
  assumes "roundsWithin u lo hi fl" and "0 \<le> x" and "roundings u k x' x"
    and "inRange lo hi x'"
  shows "roundings u (Suc k) (fl x') x"
proof (cases "x' = 0")
  case True
  note u = roundsWithinD [OF assms(1)]
  have "roundings u (Suc k) x' x"
    by (rule roundings_mono [OF u(1,2) assms(2) _ assms(3)]) simp
  with True u(5) show ?thesis by simp
next
  case False
  note u = roundsWithinD [OF assms(1)]
  from False assms(4) have r: "lo \<le> x'" "x' \<le> hi"
    by (simp_all add: inRange_def)
  have "(1 - u) * ((1 - u) ^ k * x) \<le> (1 - u) * x'"
    using assms(3) u(2) by (intro mult_left_mono) (simp_all add: roundings_def)
  also have "\<dots> \<le> fl x'" using r by (rule u(3))
  finally have lo: "(1 - u) ^ Suc k * x \<le> fl x'" by (simp add: mult.assoc)
  have "fl x' \<le> (1 + u) * x'" using r by (rule u(4))
  also have "\<dots> \<le> (1 + u) * ((1 + u) ^ k * x)"
    using assms(3) u(1) by (intro mult_left_mono) (simp_all add: roundings_def)
  finally have hi: "fl x' \<le> (1 + u) ^ Suc k * x" by (simp add: mult.assoc)
  from lo hi show ?thesis by (simp add: roundings_def)
qed

lemma roundings_add:
  "roundings u k a' a \<Longrightarrow> roundings u k b' b \<Longrightarrow> roundings u k (a' + b') (a + b)"
  by (simp add: roundings_def algebra_simps add_mono)

lemma roundings_scale:
  "0 \<le> s \<Longrightarrow> roundings u k x' x \<Longrightarrow> roundings u k (x' * s) (x * s)"
  using mult_right_mono [of "(1 - u) ^ k * x" x' s] mult_right_mono [of x' "(1 + u) ^ k * x" s]
  by (simp add: roundings_def mult.assoc)

lemma roundings_zero: "roundings 0 k x' x \<longleftrightarrow> x' = x"
  by (auto simp: roundings_def)

subsection \<open>Cumulative cost against the analytic sum\<close>

lemma set_update_subset: "set (AList.update k v al) \<subseteq> insert (k, v) (set al)"
  by (induction al) auto

lemma set_delete_subset: "set (AList.delete k al) \<subseteq> set al"
  by (induction al) auto

lemma wellKeyed_addNode: "wellKeyed c \<Longrightarrow> wellKeyed (addNode pprov c node)"
  using set_update_subset [of "Node.Name node" node "nodes c"]
  by (auto simp: wellKeyed_def addNode_def Let_def distinct_update split: option.splits)

lemma wellKeyed_removeNode: "wellKeyed c \<Longrightarrow> wellKeyed (removeNode c node)"
  using set_delete_subset [of "Node.Name node" "nodes c"]
  by (auto simp: wellKeyed_def removeNode_def distinct_delete)

lemma wellKeyed_step: "wellKeyed c \<Longrightarrow> wellKeyed (step fl pprov c a)"
  by (cases "(fl, pprov, c, a)" rule: step.cases)
     (simp_all add: wellKeyed_addNode wellKeyed_removeNode, simp_all add: wellKeyed_def)

lemma wellKeyed_run: "wellKeyed c \<Longrightarrow> wellKeyed (run fl pprov c acts)"
  by (induction acts arbitrary: c) (auto simp: wellKeyed_step)

lemma wellKeyed_New: "wellKeyed NewCostMonitor"
  by (simp add: wellKeyed_def NewCostMonitor_def)

lemma sum_list_keys:
  assumes "distinct (map fst xs)"
  shows "(\<Sum>(k, v) \<leftarrow> xs. f k) = (\<Sum>k \<in> fst ` set xs. f k)"
proof -
  have "sum_list (map f (map fst xs)) = sum f (set (map fst xs))"
    using assms by (rule sum_list_distinct_conv_sum_set)
  then show ?thesis
    by (simp add: comp_def case_prod_unfold)
qed

lemma keys_filter:
  "fst ` set (filter (\<lambda>(name, price). name \<noteq> k) t) = fst ` set t - {k}"
  by force

lemma burnRate_keys:
  assumes "wellKeyed c"
  shows "burnRate c = (\<Sum>name \<in> fst ` set (nodes c). priceAt (nodePrices c) name)"
proof -
  have "(\<Sum>(name, n) \<leftarrow> nodes c. priceAt (nodePrices c) (Node.Name n))
          = (\<Sum>(name, n) \<leftarrow> nodes c. priceAt (nodePrices c) name)"
    using assms unfolding wellKeyed_def
    by (auto intro!: arg_cong [where f = sum_list])
  also have "\<dots> = (\<Sum>name \<in> fst ` set (nodes c). priceAt (nodePrices c) name)"
    using assms unfolding wellKeyed_def by (simp add: sum_list_keys)
  finally show ?thesis by (simp add: burnRate_def)
qed

lemma mirrors_price:
  "mirrors c t \<Longrightarrow> (name, price) \<in> set t \<Longrightarrow> nodePrices c name = Some price"
  unfolding mirrors_def by blast

lemma mirrors_burnRate:
  assumes "mirrors c t"
  shows "burnRate c = (\<Sum>(name, price) \<leftarrow> t. price)"
proof -
  have "map (\<lambda>(name, price). price) t = map (\<lambda>(name, price). priceAt (nodePrices c) name) t"
    by (rule map_cong) (auto simp: priceAt_def mirrors_price [OF assms])
  then have "(\<Sum>(name, price) \<leftarrow> t. price) = (\<Sum>(name, price) \<leftarrow> t. priceAt (nodePrices c) name)"
    by (rule arg_cong [where f = sum_list])
  also have "\<dots> = (\<Sum>name \<in> fst ` set t. priceAt (nodePrices c) name)"
    using assms unfolding mirrors_def by (simp add: sum_list_keys)
  also have "\<dots> = burnRate c"
    using assms unfolding mirrors_def by (simp add: burnRate_keys)
  finally show ?thesis by simp
qed

lemma mirrors_addNode:
  assumes "pprov (instanceTypeOf node) \<noteq> None" and "mirrors c t"
  shows "mirrors (addNode pprov c node)
           ((Node.Name node, priceAt pprov (instanceTypeOf node))
              # filter (\<lambda>(name, price). name \<noteq> Node.Name node) t)"
proof -
  let ?k = "Node.Name node"
  let ?t = "filter (\<lambda>(name, price). name \<noteq> ?k) t"
  from assms(1) obtain p where p: "pprov (instanceTypeOf node) = Some p" by blast
  have n: "nodes (addNode pprov c node) = AList.update ?k node (nodes c)"
    and q: "nodePrices (addNode pprov c node) = (nodePrices c)(?k \<mapsto> p)"
    using p by (simp_all add: addNode_def Let_def instanceTypeOf_def)
  have keys: "fst ` set ?t = fst ` set t - {?k}"
    by (rule keys_filter)
  have "wellKeyed (addNode pprov c node)"
    using assms(2) by (simp add: mirrors_def wellKeyed_addNode)
  moreover have "distinct (map fst ((?k, p) # ?t))"
    using assms(2) keys by (simp add: mirrors_def distinct_map_filter del: set_filter)
  moreover have "fst ` set ((?k, p) # ?t) = fst ` set (nodes (addNode pprov c node))"
    using assms(2) keys by (auto simp: n mirrors_def dom_update simp del: set_filter)
  moreover have "\<forall>(name, price) \<in> set ((?k, p) # ?t).
      nodePrices (addNode pprov c node) name = Some price"
    using mirrors_price [OF assms(2)] by (auto simp: q)
  ultimately show ?thesis
    by (simp add: mirrors_def p priceAt_def del: set_filter)
qed

lemma mirrors_removeNode:
  assumes "mirrors c t"
  shows "mirrors (removeNode c node) (filter (\<lambda>(name, price). name \<noteq> Node.Name node) t)"
proof -
  let ?k = "Node.Name node"
  let ?t = "filter (\<lambda>(name, price). name \<noteq> ?k) t"
  have keys: "fst ` set ?t = fst ` set t - {?k}"
    by (rule keys_filter)
  have "wellKeyed (removeNode c node)"
    using assms by (simp add: mirrors_def wellKeyed_removeNode)
  moreover have "distinct (map fst ?t)"
    using assms by (simp add: mirrors_def distinct_map_filter)
  moreover have "fst ` set ?t = fst ` set (nodes (removeNode c node))"
    using assms keys by (simp add: mirrors_def removeNode_def keys_delete del: set_filter)
  moreover have "\<forall>(name, price) \<in> set ?t. nodePrices (removeNode c node) name = Some price"
    using mirrors_price [OF assms] by (auto simp: removeNode_def)
  ultimately show ?thesis
    by (simp add: mirrors_def del: set_filter)
qed

lemma mirrors_step:
  assumes "priced pprov a" and "mirrors c t"
  shows "mirrors (step fl pprov c a) (track pprov t a)"
  using assms
  by (cases "(fl, pprov, c, a)" rule: step.cases)
     (simp_all add: mirrors_addNode mirrors_removeNode, simp_all add: mirrors_def wellKeyed_def)


lemma mirrors_length:
  assumes "mirrors c t"
  shows "length (nodes c) = length t"
proof -
  have "length (nodes c) = card (set (map fst (nodes c)))"
    using assms by (simp add: mirrors_def wellKeyed_def distinct_card del: set_map)
  also have "\<dots> = card (set (map fst t))"
    using assms by (simp add: mirrors_def)
  also have "\<dots> = length t"
    using assms by (simp add: mirrors_def distinct_card del: set_map)
  finally show ?thesis .
qed

lemma track_length: "length (track pprov t a) \<le> Suc (length t)"
  by (cases "(pprov, t, a)" rule: track.cases) (auto intro: le_SucI)

text \<open>
  The rounded results of a tick are the arguments of its roundings: the running sum is the
  rounding of the last partial sum, and the new cumulative cost the rounding of the last
  entry; there is one for each tracked node and two more.
\<close>

lemma sumPrices_roundedSums:
  "sumPrices fl ns prices acc = last (acc # map fl (roundedSums fl ns prices acc))"
  by (induction fl ns prices acc rule: sumPrices.induct) simp_all

lemma tick_roundedInTick:
  "cumulativeCost (logCost_tick fl c) = fl (last (roundedInTick fl c))"
  by (simp add: logCost_tick_def roundedInTick_def)

lemma length_roundedInTick: "length (roundedInTick fl c) = length (nodes c) + 2"
proof -
  have "length (roundedSums fl ns prices acc) = length ns" for ns prices acc
    by (induction fl ns prices acc rule: roundedSums.induct) simp_all
  then show ?thesis by (simp add: roundedInTick_def)
qed

lemma sumPrices_roundings:
  assumes "roundsWithin u lo hi fl" and "pricesNonneg c"
  shows "0 \<le> a \<Longrightarrow> roundings u k acc a \<Longrightarrow>
     \<forall>x \<in> set (roundedSums fl ns (nodePrices c) acc). inRange lo hi x \<Longrightarrow>
     roundings u (k + length ns) (sumPrices fl ns (nodePrices c) acc)
       (a + (\<Sum>(name, n) \<leftarrow> ns. priceAt (nodePrices c) (Node.Name n)))"
proof (induction ns arbitrary: acc a k)
  case Nil
  then show ?case by simp
next
  case (Cons x ns)
  obtain name n where x: "x = (name, n)" by (cases x)
  note u = roundsWithinD [OF assms(1)]
  let ?p = "priceAt (nodePrices c) (Node.Name n)"
  have p: "0 \<le> ?p" using assms(2) by (rule priceAt_nonneg)
  have "roundings u k ?p ?p"
    by (rule roundings_mono [OF u(1,2) p _ roundings_refl]) simp
  with Cons.prems(2) have "roundings u k (acc + ?p) (a + ?p)"
    by (rule roundings_add)
  then have "roundings u (Suc k) (fl (acc + ?p)) (a + ?p)"
    using Cons.prems(1,3) p by (intro roundings_fl [OF assms(1)]) (simp_all add: x)
  then have "roundings u (Suc k + length ns) (sumPrices fl ns (nodePrices c) (fl (acc + ?p)))
       (a + ?p + (\<Sum>(name, n) \<leftarrow> ns. priceAt (nodePrices c) (Node.Name n)))"
    using Cons.prems(1,3) p by (intro Cons.IH) (simp_all add: x)
  then show ?case by (simp add: x add.assoc)
qed

lemma burnRate_nonneg: "pricesNonneg c \<Longrightarrow> 0 \<le> burnRate c"
  unfolding burnRate_def
  by (rule sum_list_nonneg) (auto simp: priceAt_nonneg)

lemma perHourCost_roundings:
  assumes "roundsWithin u lo hi fl" and "pricesNonneg c"
    and "\<forall>x \<in> set (roundedSums fl (nodes c) (nodePrices c) 0). inRange lo hi x"
  shows "roundings u (length (nodes c)) (perHourCost fl c) (burnRate c)"
  using sumPrices_roundings [OF assms(1,2), of 0 0 0 "nodes c"] assms(3)
  by (simp add: perHourCost_def burnRate_def roundings_refl)

lemma tick_roundings:
  assumes "roundsWithin u lo hi fl" and "pricesNonneg c" and "0 \<le> A"
    and "length (nodes c) < j" and "roundings u j (cumulativeCost c) A"
    and "\<forall>x \<in> set (roundedInTick fl c). inRange lo hi x"
  shows "roundings u (Suc j) (cumulativeCost (logCost_tick fl c))
           (A + burnRate c * tickIntervalSeconds / 3600)"
proof -
  note u = roundsWithinD [OF assms(1)]
  have b: "0 \<le> burnRate c" using assms(2) by (rule burnRate_nonneg)
  from assms(6) have s: "\<forall>x \<in> set (roundedSums fl (nodes c) (nodePrices c) 0). inRange lo hi x"
    and d: "inRange lo hi (perHourCost fl c / 3600)"
    and e: "inRange lo hi (cumulativeCost c + fl (perHourCost fl c / 3600))"
    by (simp_all add: roundedInTick_def)
  have "roundings u (length (nodes c)) (perHourCost fl c * (1 / 3600)) (burnRate c * (1 / 3600))"
    using perHourCost_roundings [OF assms(1,2) s] by (intro roundings_scale) simp_all
  then have "roundings u (Suc (length (nodes c))) (fl (perHourCost fl c / 3600)) (burnRate c / 3600)"
    using b d by (intro roundings_fl [OF assms(1)]) simp_all
  then have "roundings u j (fl (perHourCost fl c / 3600)) (burnRate c / 3600)"
    using b assms(4) by (intro roundings_mono [OF u(1,2), where k = "Suc (length (nodes c))" and k' = j]) simp_all
  with assms(5) have "roundings u j (cumulativeCost c + fl (perHourCost fl c / 3600))
      (A + burnRate c / 3600)"
    by (rule roundings_add)
  then have "roundings u (Suc j) (fl (cumulativeCost c + fl (perHourCost fl c / 3600)))
      (A + burnRate c / 3600)"
    using assms(3) b e by (intro roundings_fl [OF assms(1)]) simp_all
  then show ?thesis
    by (simp add: tick_cumulativeCost tickIntervalSeconds_def)
qed

lemma run_roundings:
  assumes "roundsWithin u lo hi fl" and "nonnegPrices pprov"
  shows "\<forall>a \<in> set acts. priced pprov a \<Longrightarrow> mirrors c t \<Longrightarrow> pricesNonneg c \<Longrightarrow> 0 \<le> A \<Longrightarrow>
     length t < j \<Longrightarrow> roundings u j (cumulativeCost c) A \<Longrightarrow>
     \<forall>x \<in> set (roundedInRun fl pprov c acts). inRange lo hi x \<Longrightarrow>
     roundings u (j + length acts) (cumulativeCost (run fl pprov c acts))
       (A + analyticCost pprov t acts)"
proof (induction acts arbitrary: c t A j)
  case Nil
  then show ?case by simp
next
  case (Cons a acts)
  note u = roundsWithinD [OF assms(1)]
  from Cons.prems have m: "mirrors (step fl pprov c a) (track pprov t a)"
    by (simp add: mirrors_step)
  from Cons.prems have rest: "\<forall>a \<in> set acts. priced pprov a" by simp
  from Cons.prems(7) have later: "\<forall>x \<in> set (roundedInRun fl pprov (step fl pprov c a) acts). inRange lo hi x"
    by simp
  have n: "pricesNonneg (step fl pprov c a)"
    using assms(2) Cons.prems(3) by (rule pricesNonneg_step)
  have len: "length (track pprov t a) < Suc j"
    using track_length [of pprov t a] Cons.prems(5) by simp
  let ?q = "if a = SlowTick then (\<Sum>(name, price) \<leftarrow> t. price / 3600 * tickIntervalSeconds) else 0"
  have q: "?q = (if a = SlowTick then burnRate c * tickIntervalSeconds / 3600 else 0)"
  proof -
    have "(\<Sum>(name, price) \<leftarrow> t. price / 3600 * tickIntervalSeconds)
            = (\<Sum>(name, price) \<leftarrow> t. price) * (tickIntervalSeconds / 3600)"
      by (simp add: sum_list_mult_const [symmetric] case_prod_unfold comp_def)
    then show ?thesis
      by (simp add: mirrors_burnRate [OF Cons.prems(2)])
  qed
  have q0: "0 \<le> ?q"
    unfolding q using burnRate_nonneg [OF Cons.prems(3)] by (simp add: tickIntervalSeconds_def)
  have "roundings u (Suc j) (cumulativeCost (step fl pprov c a))
      (A + (if a = SlowTick then burnRate c * tickIntervalSeconds / 3600 else 0))"
  proof (cases "a = SlowTick")
    case True
    have "length (nodes c) < j"
      using Cons.prems(5) by (simp add: mirrors_length [OF Cons.prems(2)])
    moreover from True Cons.prems(7) have "\<forall>x \<in> set (roundedInTick fl c). inRange lo hi x"
      by simp
    ultimately show ?thesis
      using tick_roundings [OF assms(1) Cons.prems(3,4) _ Cons.prems(6)] True by simp
  next
    case False
    have "roundings u (Suc j) (cumulativeCost c) A"
      by (rule roundings_mono [OF u(1,2) Cons.prems(4) _ Cons.prems(6)]) simp
    with False show ?thesis by (simp add: step_cumulativeCost)
  qed
  then have head: "roundings u (Suc j) (cumulativeCost (step fl pprov c a)) (A + ?q)"
    by (simp only: q)
  have "roundings u (Suc j + length acts) (cumulativeCost (run fl pprov (step fl pprov c a) acts))
       (A + ?q + analyticCost pprov (track pprov t a) acts)"
    using rest m n q0 Cons.prems(4) len head later by (intro Cons.IH) simp_all
  then show ?case by (simp add: add.assoc)
qed

text \<open>
  Bounds on the prices and on the analytic cost that keep a run in the range of the
  rounding: a value within \<open>k\<close> roundings of an exact value that is zero or between \<open>m\<close>
  and \<open>M\<close> is zero or between \<open>(1 - u) ^ k * m\<close> and \<open>(1 + u) ^ k * M\<close>.
\<close>

lemma roundings_inRange:
  assumes "0 \<le> u" and "u < 1" and "roundings u k x' x" and "x = 0 \<or> m \<le> x" and "0 \<le> m"
    and "x \<le> M" and "k \<le> K" and "lo \<le> (1 - u) ^ K * m" and "(1 + u) ^ K * M \<le> hi"
  shows "inRange lo hi x'"
proof (cases "x = 0")
  case True
  with assms(3) show ?thesis by (simp add: roundings_def inRange_def)
next
  case False
  with assms(4) have m: "m \<le> x" by simp
  with assms(5) have x: "0 \<le> x" by simp
  have r: "roundings u K x' x"
    using assms(1,2) x assms(7,3) by (rule roundings_mono)
  have "(1 - u) ^ K * m \<le> (1 - u) ^ K * x"
    using m assms(2) by (intro mult_left_mono) simp_all
  with assms(8) r have lo: "lo \<le> x'" by (simp add: roundings_def)
  have "(1 + u) ^ K * x \<le> (1 + u) ^ K * M"
    using assms(6,1) by (intro mult_left_mono) simp_all
  with assms(9) r have hi: "x' \<le> hi" by (simp add: roundings_def)
  from lo hi show ?thesis by (simp add: inRange_def)
qed

lemma priceAt_from:
  "pricesFrom pmin (nodePrices c) \<Longrightarrow>
     priceAt (nodePrices c) k = 0 \<or> pmin \<le> priceAt (nodePrices c) k"
  by (auto simp: pricesFrom_def priceAt_def split: option.splits)

lemma roundedSums_inRange:
  assumes "roundsWithin u lo hi fl" and "pricesNonneg c" and "pricesFrom pmin (nodePrices c)"
  shows "0 \<le> a \<Longrightarrow> a = 0 \<or> pmin \<le> a \<Longrightarrow> roundings u k acc a \<Longrightarrow> k + length ns \<le> K \<Longrightarrow>
     0 \<le> pmin \<Longrightarrow> lo \<le> (1 - u) ^ K * pmin \<Longrightarrow>
     (1 + u) ^ K * (a + (\<Sum>(name, n) \<leftarrow> ns. priceAt (nodePrices c) (Node.Name n))) \<le> hi \<Longrightarrow>
     \<forall>x \<in> set (roundedSums fl ns (nodePrices c) acc). inRange lo hi x"
proof (induction ns arbitrary: acc a k)
  case Nil
  then show ?case by simp
next
  case (Cons x ns)
  obtain name n where x: "x = (name, n)" by (cases x)
  note u = roundsWithinD [OF assms(1)]
  let ?p = "priceAt (nodePrices c) (Node.Name n)"
  let ?rest = "\<Sum>(name, n) \<leftarrow> ns. priceAt (nodePrices c) (Node.Name n)"
  have p: "0 \<le> ?p" using assms(2) by (rule priceAt_nonneg)
  have pf: "?p = 0 \<or> pmin \<le> ?p" using assms(3) by (rule priceAt_from)
  have rest: "0 \<le> ?rest"
    by (rule sum_list_nonneg) (auto simp: priceAt_nonneg [OF assms(2)])
  have a0: "0 \<le> a + ?p" using Cons.prems(1) p by simp
  have af: "a + ?p = 0 \<or> pmin \<le> a + ?p"
    using Cons.prems(1,2) p pf by auto
  have le: "a + ?p \<le> a + ?p + ?rest" using rest by simp
  have hi: "(1 + u) ^ K * (a + ?p + ?rest) \<le> hi"
    using Cons.prems(7) by (simp add: x add.assoc)
  have "roundings u k ?p ?p"
    by (rule roundings_mono [OF u(1,2) p _ roundings_refl]) simp
  with Cons.prems(3) have r: "roundings u k (acc + ?p) (a + ?p)"
    by (rule roundings_add)
  have kK: "k \<le> K" using Cons.prems(4) by simp
  have head: "inRange lo hi (acc + ?p)"
    using u(1,2) r af Cons.prems(5) le kK Cons.prems(6) hi by (rule roundings_inRange)
  have "roundings u (Suc k) (fl (acc + ?p)) (a + ?p)"
    using assms(1) a0 r head by (rule roundings_fl)
  moreover have "Suc k + length ns \<le> K" using Cons.prems(4) by simp
  ultimately have "\<forall>x \<in> set (roundedSums fl ns (nodePrices c) (fl (acc + ?p))). inRange lo hi x"
    using a0 af Cons.prems(5,6) hi by (intro Cons.IH [where a = "a + ?p" and k = "Suc k"])
  with head show ?case by (simp add: x)
qed

lemma sum_list_from:
  fixes xs :: "real list"
  assumes "\<forall>x \<in> set xs. 0 \<le> x \<and> (x = 0 \<or> m \<le> x)"
  shows "0 \<le> sum_list xs \<and> (sum_list xs = 0 \<or> m \<le> sum_list xs)"
  using assms by (induction xs) auto

lemma burnRate_from:
  assumes "pricesNonneg c" and "pricesFrom pmin (nodePrices c)"
  shows "burnRate c = 0 \<or> pmin \<le> burnRate c"
proof -
  have "\<forall>x \<in> set (map (\<lambda>(name, n). priceAt (nodePrices c) (Node.Name n)) (nodes c)).
      0 \<le> x \<and> (x = 0 \<or> pmin \<le> x)"
    using priceAt_nonneg [OF assms(1)] priceAt_from [OF assms(2)] by auto
  from sum_list_from [OF this] show ?thesis by (simp add: burnRate_def)
qed

lemma tick_inRange:
  assumes "roundsWithin u lo hi fl" and "pricesNonneg c" and "pricesFrom pmin (nodePrices c)"
    and "0 \<le> pmin" and "0 \<le> A" and "A = 0 \<or> pmin / 3600 \<le> A"
    and "length (nodes c) < j" and "roundings u j (cumulativeCost c) A" and "j \<le> K"
    and "lo \<le> (1 - u) ^ K * (pmin / 3600)" and "(1 + u) ^ K * M \<le> hi"
    and "burnRate c \<le> M" and "A + burnRate c / 3600 \<le> M"
  shows "\<forall>x \<in> set (roundedInTick fl c). inRange lo hi x"
proof -
  note u = roundsWithinD [OF assms(1)]
  let ?n = "length (nodes c)"
  have b: "0 \<le> burnRate c" using assms(2) by (rule burnRate_nonneg)
  have bf: "burnRate c / 3600 = 0 \<or> pmin / 3600 \<le> burnRate c / 3600"
    using burnRate_from [OF assms(2,3)] by auto
  have "pmin / 3600 \<le> pmin" using assms(4) by simp
  then have "(1 - u) ^ K * (pmin / 3600) \<le> (1 - u) ^ K * pmin"
    using u(2) by (intro mult_left_mono) simp_all
  with assms(10) have lo': "lo \<le> (1 - u) ^ K * pmin" by (rule order_trans)
  have "(1 + u) ^ K * burnRate c \<le> (1 + u) ^ K * M"
    using assms(12) u(1) by (intro mult_left_mono) simp_all
  from this assms(11) have hi': "(1 + u) ^ K * burnRate c \<le> hi" by (rule order_trans)
  have nK: "0 + ?n \<le> K" using assms(7,9) by simp
  have s: "\<forall>x \<in> set (roundedSums fl (nodes c) (nodePrices c) 0). inRange lo hi x"
    using roundedSums_inRange [OF assms(1,2,3), of 0 0 0 "nodes c" K] nK assms(4) lo' hi'
    by (simp add: roundings_refl burnRate_def)
  have "roundings u ?n (perHourCost fl c * (1 / 3600)) (burnRate c * (1 / 3600))"
    using perHourCost_roundings [OF assms(1,2) s] by (intro roundings_scale) simp_all
  then have q: "roundings u ?n (perHourCost fl c / 3600) (burnRate c / 3600)" by simp
  have b36: "burnRate c / 3600 \<le> M" using b assms(12) by simp
  have "?n \<le> K" using nK by simp
  with u(1,2) q bf have d: "inRange lo hi (perHourCost fl c / 3600)"
    using assms(10,11) b36 assms(4) by (intro roundings_inRange [where m = "pmin / 3600" and M = M and k = ?n and K = K and x = "burnRate c / 3600" and u = u]) simp_all
  have "roundings u (Suc ?n) (fl (perHourCost fl c / 3600)) (burnRate c / 3600)"
    using b q d by (intro roundings_fl [OF assms(1)]) simp_all
  then have "roundings u j (fl (perHourCost fl c / 3600)) (burnRate c / 3600)"
    using b assms(7) by (intro roundings_mono [OF u(1,2), where k = "Suc ?n" and k' = j]) simp_all
  with assms(8) have r: "roundings u j (cumulativeCost c + fl (perHourCost fl c / 3600))
      (A + burnRate c / 3600)"
    by (rule roundings_add)
  have f: "A + burnRate c / 3600 = 0 \<or> pmin / 3600 \<le> A + burnRate c / 3600"
    using assms(5,6) b bf by auto
  have e: "inRange lo hi (cumulativeCost c + fl (perHourCost fl c / 3600))"
    using u(1,2) r f _ assms(13,9,10,11) by (rule roundings_inRange) (simp add: assms(4))
  from s d e show ?thesis by (simp add: roundedInTick_def)
qed

lemma track_nonneg:
  "nonnegPrices pprov \<Longrightarrow> \<forall>(name, price) \<in> set t. 0 \<le> price \<Longrightarrow>
     \<forall>(name, price) \<in> set (track pprov t a). 0 \<le> price"
  by (cases "(pprov, t, a)" rule: track.cases)
     (auto simp: nonnegPrices_def priceAt_def split: option.splits)

lemma analyticCost_nonneg:
  assumes "nonnegPrices pprov"
  shows "\<forall>(name, price) \<in> set t. 0 \<le> price \<Longrightarrow> 0 \<le> analyticCost pprov t acts"
proof (induction acts arbitrary: t)
  case Nil
  then show ?case by simp
next
  case (Cons a acts)
  have "0 \<le> (\<Sum>(name, price) \<leftarrow> t. price / 3600 * tickIntervalSeconds)"
    using Cons.prems by (intro sum_list_nonneg) (auto simp: tickIntervalSeconds_def)
  moreover have "0 \<le> analyticCost pprov (track pprov t a) acts"
    using track_nonneg [OF assms Cons.prems] by (rule Cons.IH)
  ultimately show ?case by simp
qed

lemma pricesFrom_step:
  "pricesFrom pmin pprov \<Longrightarrow> pricesFrom pmin (nodePrices c) \<Longrightarrow>
     pricesFrom pmin (nodePrices (step fl pprov c a))"
  by (cases "(fl, pprov, c, a)" rule: step.cases)
     (auto simp: pricesFrom_def addNode_def removeNode_def updatePod_def deletePod_def
        logCost_tick_def monitorPendingPods_tick_def Let_def split: option.splits if_splits)

lemma mirrors_nonneg:
  "mirrors c t \<Longrightarrow> pricesNonneg c \<Longrightarrow> \<forall>(name, price) \<in> set t. 0 \<le> price"
  by (auto simp: mirrors_def pricesNonneg_def)

lemma run_inRange:
  assumes "roundsWithin u lo hi fl" and "nonnegPrices pprov" and "pricesFrom pmin pprov"
    and "0 \<le> pmin"
  shows "\<forall>a \<in> set acts. priced pprov a \<Longrightarrow> mirrors c t \<Longrightarrow> pricesNonneg c \<Longrightarrow>
     pricesFrom pmin (nodePrices c) \<Longrightarrow> 0 \<le> A \<Longrightarrow> A = 0 \<or> pmin / 3600 \<le> A \<Longrightarrow>
     length t < j \<Longrightarrow> roundings u j (cumulativeCost c) A \<Longrightarrow>
     lo \<le> (1 - u) ^ (j + length acts) * (pmin / 3600) \<Longrightarrow>
     (1 + u) ^ (j + length acts) * (3600 * (A + analyticCost pprov t acts)) \<le> hi \<Longrightarrow>
     \<forall>x \<in> set (roundedInRun fl pprov c acts). inRange lo hi x"
proof (induction acts arbitrary: c t A j)
  case Nil
  then show ?case by simp
next
  case (Cons a acts)
  note u = roundsWithinD [OF assms(1)]
  let ?K = "j + length (a # acts)"
  let ?M = "3600 * (A + analyticCost pprov t (a # acts))"
  from Cons.prems have m: "mirrors (step fl pprov c a) (track pprov t a)"
    by (simp add: mirrors_step)
  from Cons.prems have rest: "\<forall>a \<in> set acts. priced pprov a" by simp
  have n: "pricesNonneg (step fl pprov c a)"
    using assms(2) Cons.prems(3) by (rule pricesNonneg_step)
  have f: "pricesFrom pmin (nodePrices (step fl pprov c a))"
    using assms(3) Cons.prems(4) by (rule pricesFrom_step)
  have len: "length (track pprov t a) < Suc j"
    using track_length [of pprov t a] Cons.prems(7) by simp
  have tn: "\<forall>(name, price) \<in> set t. 0 \<le> price"
    using Cons.prems(2,3) by (rule mirrors_nonneg)
  have later0: "0 \<le> analyticCost pprov (track pprov t a) acts"
    using track_nonneg [OF assms(2) tn] by (rule analyticCost_nonneg [OF assms(2)])
  let ?q = "if a = SlowTick then (\<Sum>(name, price) \<leftarrow> t. price / 3600 * tickIntervalSeconds) else 0"
  have q: "?q = (if a = SlowTick then burnRate c * tickIntervalSeconds / 3600 else 0)"
  proof -
    have "(\<Sum>(name, price) \<leftarrow> t. price / 3600 * tickIntervalSeconds)
            = (\<Sum>(name, price) \<leftarrow> t. price) * (tickIntervalSeconds / 3600)"
      by (simp add: sum_list_mult_const [symmetric] case_prod_unfold comp_def)
    then show ?thesis
      by (simp add: mirrors_burnRate [OF Cons.prems(2)])
  qed
  have b: "0 \<le> burnRate c" using Cons.prems(3) by (rule burnRate_nonneg)
  have q0: "0 \<le> ?q"
    unfolding q using b by (simp add: tickIntervalSeconds_def)
  have qf: "A + ?q = 0 \<or> pmin / 3600 \<le> A + ?q"
  proof -
    have "burnRate c / 3600 = 0 \<or> pmin / 3600 \<le> burnRate c / 3600"
      using burnRate_from [OF Cons.prems(3,4)] by auto
    with Cons.prems(5,6) b show ?thesis
      unfolding q by (auto simp: tickIntervalSeconds_def)
  qed
  have total: "A + analyticCost pprov t (a # acts) = A + ?q + analyticCost pprov (track pprov t a) acts"
    by simp
  have hi: "(1 + u) ^ ?K * ?M \<le> hi" using Cons.prems(10) .
  have lo: "lo \<le> (1 - u) ^ ?K * (pmin / 3600)" using Cons.prems(9) .
  have tick: "\<forall>x \<in> set (roundedInTick fl c). inRange lo hi x" if "a = SlowTick"
  proof -
    have c1: "length (nodes c) < j"
      using Cons.prems(7) by (simp add: mirrors_length [OF Cons.prems(2)])
    have c2: "j \<le> ?K" by simp
    have c3: "burnRate c \<le> ?M"
      using that Cons.prems(5) later0 b unfolding total q
      by (simp add: tickIntervalSeconds_def)
    have c4: "A + burnRate c / 3600 \<le> ?M"
      using that Cons.prems(5) later0 b unfolding total q
      by (simp add: tickIntervalSeconds_def)
    show ?thesis
      using assms(1) Cons.prems(3,4) assms(4) Cons.prems(5,6) c1 Cons.prems(8) c2 lo hi c3 c4
      by (rule tick_inRange)
  qed
  have "roundings u (Suc j) (cumulativeCost (step fl pprov c a))
      (A + (if a = SlowTick then burnRate c * tickIntervalSeconds / 3600 else 0))"
  proof (cases "a = SlowTick")
    case True
    have "length (nodes c) < j"
      using Cons.prems(7) by (simp add: mirrors_length [OF Cons.prems(2)])
    then show ?thesis
      using tick_roundings [OF assms(1) Cons.prems(3,5) _ Cons.prems(8) tick [OF True]] True by simp
  next
    case False
    have "roundings u (Suc j) (cumulativeCost c) A"
      by (rule roundings_mono [OF u(1,2) Cons.prems(5) _ Cons.prems(8)]) simp
    with False show ?thesis by (simp add: step_cumulativeCost)
  qed
  then have head: "roundings u (Suc j) (cumulativeCost (step fl pprov c a)) (A + ?q)"
    by (simp only: q)
  have A0: "0 \<le> A + ?q" using Cons.prems(5) q0 by simp
  have lo': "lo \<le> (1 - u) ^ (Suc j + length acts) * (pmin / 3600)" using lo by simp
  have hi': "(1 + u) ^ (Suc j + length acts)
      * (3600 * (A + ?q + analyticCost pprov (track pprov t a) acts)) \<le> hi"
    using hi unfolding total by simp
  have "\<forall>x \<in> set (roundedInRun fl pprov (step fl pprov c a) acts). inRange lo hi x"
    using rest m n f A0 qf len head lo' hi' by (rule Cons.IH)
  with tick show ?case by auto
qed

lemma run_stays_inRange:
  assumes "roundsWithin u lo hi fl" and "nonnegPrices pprov" and "pricesFrom pmin pprov"
    and "0 \<le> pmin" and "\<forall>a \<in> set acts. priced pprov a"
    and "lo \<le> (1 - u) ^ (length acts + 1) * (pmin / 3600)"
    and "(1 + u) ^ (length acts + 1) * (3600 * analyticCost pprov [] acts) \<le> hi"
  shows "\<forall>x \<in> set (roundedInRun fl pprov NewCostMonitor acts). inRange lo hi x"
proof -
  have "mirrors NewCostMonitor []"
    by (simp add: mirrors_def wellKeyed_def NewCostMonitor_def)
  moreover have "pricesNonneg NewCostMonitor"
    by (simp add: pricesNonneg_def NewCostMonitor_def)
  moreover have "pricesFrom pmin (nodePrices NewCostMonitor)"
    by (simp add: pricesFrom_def NewCostMonitor_def)
  moreover have "roundings u 1 (cumulativeCost NewCostMonitor) 0"
    by (simp add: roundings_def NewCostMonitor_def)
  moreover have "lo \<le> (1 - u) ^ (1 + length acts) * (pmin / 3600)"
    using assms(6) by (simp add: add.commute)
  moreover have "(1 + u) ^ (1 + length acts) * (3600 * (0 + analyticCost pprov [] acts)) \<le> hi"
    using assms(7) by (simp add: add.commute)
  ultimately show ?thesis
    using assms(5) by (intro run_inRange [OF assms(1-4), where t = "[]" and A = 0 and j = 1]) simp_all
qed

text \<open>
  C2. With non-negative prices and a rounding of relative error at most \<open>u\<close> between
  \<open>lo\<close> and \<open>hi\<close> that keeps zero: a tick of the slow timer in which no rounded result
  leaves that range (none overflows, none underflows) takes \<open>cumulativeCost\<close> to its old
  value plus the burn rate times the tick interval in seconds over 3600, within the
  roundings of the tick (one for each tracked node and two more); and for a run of a new
  monitor in which the price of every arriving node is known and no rounded result of a
  tick leaves the range, the cumulative cost at the end is the analytic cost of the run,
  within one rounding for each activity and one more. A run stays in the range when
  every price is zero or at least \<open>pmin\<close>, \<open>pmin / 3600\<close> less the roundings of the run is
  at least \<open>lo\<close>, and 3600 times the analytic cost with the roundings of the run is at most
  \<open>hi\<close>. Without rounding error in the range (\<open>u = 0\<close>) tick and run hold with equality.
\<close>

theorem cumulativeCost_analytic:
  assumes "roundsWithin u lo hi fl" and "nonnegPrices pprov"
  shows "(pricesNonneg c \<and> 0 \<le> cumulativeCost c
            \<and> (\<forall>x \<in> set (roundedInTick fl c). inRange lo hi x) \<longrightarrow>
            roundings u (length (nodes c) + 2) (cumulativeCost (logCost_tick fl c))
              (cumulativeCost c + burnRate c * tickIntervalSeconds / 3600))
       \<and> ((\<forall>a \<in> set acts. priced pprov a)
            \<and> (\<forall>x \<in> set (roundedInRun fl pprov NewCostMonitor acts). inRange lo hi x) \<longrightarrow>
            roundings u (length acts + 1) (cumulativeCost (run fl pprov NewCostMonitor acts))
              (analyticCost pprov [] acts))
       \<and> ((\<forall>a \<in> set acts. priced pprov a) \<and> pricesFrom pmin pprov \<and> 0 \<le> pmin
            \<and> lo \<le> (1 - u) ^ (length acts + 1) * (pmin / 3600)
            \<and> (1 + u) ^ (length acts + 1) * (3600 * analyticCost pprov [] acts) \<le> hi \<longrightarrow>
            (\<forall>x \<in> set (roundedInRun fl pprov NewCostMonitor acts). inRange lo hi x)
            \<and> roundings u (length acts + 1) (cumulativeCost (run fl pprov NewCostMonitor acts))
                (analyticCost pprov [] acts))
       \<and> (u = 0 \<longrightarrow>
            (pricesNonneg c \<and> 0 \<le> cumulativeCost c
               \<and> (\<forall>x \<in> set (roundedInTick fl c). inRange lo hi x) \<longrightarrow>
               cumulativeCost (logCost_tick fl c)
                 = cumulativeCost c + burnRate c * tickIntervalSeconds / 3600)
            \<and> ((\<forall>a \<in> set acts. priced pprov a)
                 \<and> (\<forall>x \<in> set (roundedInRun fl pprov NewCostMonitor acts). inRange lo hi x) \<longrightarrow>
                 cumulativeCost (run fl pprov NewCostMonitor acts) = analyticCost pprov [] acts))"
proof -
  note u = roundsWithinD [OF assms(1)]
  have tick: "roundings u (length (nodes c) + 2) (cumulativeCost (logCost_tick fl c))
              (cumulativeCost c + burnRate c * tickIntervalSeconds / 3600)"
    if "pricesNonneg c" "0 \<le> cumulativeCost c"
      and "\<forall>x \<in> set (roundedInTick fl c). inRange lo hi x"
  proof -
    have "roundings u (Suc (length (nodes c))) (cumulativeCost c) (cumulativeCost c)"
      by (rule roundings_mono [OF u(1,2) that(2) _ roundings_refl]) simp
    from tick_roundings [OF assms(1) that(1,2) _ this that(3)] show ?thesis by simp
  qed
  have run: "roundings u (length acts + 1) (cumulativeCost (run fl pprov NewCostMonitor acts))
              (analyticCost pprov [] acts)"
    if "\<forall>a \<in> set acts. priced pprov a"
      and "\<forall>x \<in> set (roundedInRun fl pprov NewCostMonitor acts). inRange lo hi x"
  proof -
    have "mirrors NewCostMonitor []"
      by (simp add: mirrors_def wellKeyed_def NewCostMonitor_def)
    moreover have "pricesNonneg NewCostMonitor"
      by (simp add: pricesNonneg_def NewCostMonitor_def)
    moreover have "roundings u 1 (cumulativeCost NewCostMonitor) 0"
      by (simp add: roundings_def NewCostMonitor_def)
    ultimately have "roundings u (1 + length acts) (cumulativeCost (run fl pprov NewCostMonitor acts))
        (0 + analyticCost pprov [] acts)"
      using that by (intro run_roundings [OF assms]) simp_all
    then show ?thesis by (simp add: add.commute)
  qed
  have stays: "\<forall>x \<in> set (roundedInRun fl pprov NewCostMonitor acts). inRange lo hi x"
    if "\<forall>a \<in> set acts. priced pprov a" and "pricesFrom pmin pprov" and "0 \<le> pmin"
      and "lo \<le> (1 - u) ^ (length acts + 1) * (pmin / 3600)"
      and "(1 + u) ^ (length acts + 1) * (3600 * analyticCost pprov [] acts) \<le> hi"
    using assms that(2,3,1,4,5) by (rule run_stays_inRange)
  show ?thesis
  proof (intro conjI impI)
    assume "u = 0"
      and "pricesNonneg c \<and> 0 \<le> cumulativeCost c
        \<and> (\<forall>x \<in> set (roundedInTick fl c). inRange lo hi x)"
    with tick show "cumulativeCost (logCost_tick fl c)
        = cumulativeCost c + burnRate c * tickIntervalSeconds / 3600"
      by (simp add: roundings_zero)
  next
    assume "u = 0"
      and "(\<forall>a \<in> set acts. priced pprov a)
        \<and> (\<forall>x \<in> set (roundedInRun fl pprov NewCostMonitor acts). inRange lo hi x)"
    with run show "cumulativeCost (run fl pprov NewCostMonitor acts) = analyticCost pprov [] acts"
      by (simp add: roundings_zero)
  next
    assume "pricesNonneg c \<and> 0 \<le> cumulativeCost c
        \<and> (\<forall>x \<in> set (roundedInTick fl c). inRange lo hi x)"
    with tick show "roundings u (length (nodes c) + 2) (cumulativeCost (logCost_tick fl c))
        (cumulativeCost c + burnRate c * tickIntervalSeconds / 3600)"
      by simp
  next
    assume "(\<forall>a \<in> set acts. priced pprov a)
        \<and> (\<forall>x \<in> set (roundedInRun fl pprov NewCostMonitor acts). inRange lo hi x)"
    with run show "roundings u (length acts + 1) (cumulativeCost (run fl pprov NewCostMonitor acts))
        (analyticCost pprov [] acts)"
      by simp
  next
    assume h: "(\<forall>a \<in> set acts. priced pprov a) \<and> pricesFrom pmin pprov \<and> 0 \<le> pmin
        \<and> lo \<le> (1 - u) ^ (length acts + 1) * (pmin / 3600)
        \<and> (1 + u) ^ (length acts + 1) * (3600 * analyticCost pprov [] acts) \<le> hi"
    then have s: "\<forall>x \<in> set (roundedInRun fl pprov NewCostMonitor acts). inRange lo hi x"
      by (intro stays) simp_all
    then show "\<forall>x \<in> set (roundedInRun fl pprov NewCostMonitor acts). inRange lo hi x" .
    from h s show "roundings u (length acts + 1) (cumulativeCost (run fl pprov NewCostMonitor acts))
        (analyticCost pprov [] acts)"
      by (intro run) simp_all
  qed
qed

text \<open>
  The example run costs \<open>2 \<times> 0.096 / 3600\<close>: exactly without rounding error, and within
  six roundings when every operation is too large by \<open>2 ^ -53\<close> between \<open>2 ^ -1022\<close> and
  \<open>2 ^ 1023\<close>, a rounding that loses everything outside this range. The one price is
  \<open>0.096\<close>, and the run rounds \<open>0.096\<close>, \<open>0.096 / 3600\<close> and sums of it, which are in the
  range, and zero. One tick with the one node tracked is within three roundings.
\<close>

theorem cumulativeCost_analytic_witness:
  "cumulativeCost (run exact examplePrices NewCostMonitor billedRun) = 2 * (96 / 1000) / 3600
   \<and> roundings (1 / 2 ^ 53) 6
        (cumulativeCost (run overshoot examplePrices NewCostMonitor billedRun))
        (2 * (96 / 1000) / 3600)
   \<and> cumulativeCost (run overshoot examplePrices NewCostMonitor billedRun)
        \<noteq> 2 * (96 / 1000) / 3600
   \<and> roundings (1 / 2 ^ 53) 3
        (cumulativeCost (logCost_tick overshoot (addNode examplePrices NewCostMonitor m5Node)))
        (96 / 1000 / 3600)
   \<and> overshoot (2 ^ 1024) = 0 \<and> overshoot (1 / 2 ^ 1023) = 0"
proof -
  have i: "instanceTypeOf m5Node = ''m5.large''"
    by (simp add: instanceTypeOf_def m5Node_def labelAt_def)
  have p: "\<forall>a \<in> set billedRun. priced examplePrices a"
    by (simp add: billedRun_def i examplePrices_def)
  have n: "nonnegPrices examplePrices"
    by (simp add: nonnegPrices_def examplePrices_def)
  have a: "analyticCost examplePrices [] billedRun = 2 * (96 / 1000) / 3600"
    by (simp add: billedRun_def i examplePrices_def priceAt_def tickIntervalSeconds_def)
  have l: "length billedRun + 1 = 6"
    by (simp add: billedRun_def)
  have re: "\<forall>x \<in> set (roundedInRun exact examplePrices NewCostMonitor billedRun). inRange 0 1 x"
    by (simp add: billedRun_def roundedInTick_def NewCostMonitor_def addNode_def removeNode_def
       Let_def m5Node_def labelAt_def LabelInstanceTypeStable_def examplePrices_def
       logCost_tick_def perHourCost_def priceAt_def exact_def inRange_def)
  from cumulativeCost_analytic [OF roundsWithin_exact [of 0 1] n,
      where c = NewCostMonitor and acts = billedRun] p a re
  have first: "cumulativeCost (run exact examplePrices NewCostMonitor billedRun) = 2 * (96 / 1000) / 3600"
    by simp
  have f: "pricesFrom (96 / 1000) examplePrices"
    by (simp add: pricesFrom_def examplePrices_def)
  have b: "1 / 2 ^ 1022 \<le> (1 - 1 / 2 ^ 53) ^ 6 * (96 / 1000 / 3600 :: real)"
    "(1 + 1 / 2 ^ 53) ^ 6 * (3600 * (2 * (96 / 1000) / 3600)) \<le> (2 ^ 1023 :: real)"
    by (simp_all add: power_divide)
  have h: "(\<forall>a \<in> set billedRun. priced examplePrices a) \<and> pricesFrom (96 / 1000) examplePrices
      \<and> 0 \<le> (96 / 1000 :: real)
      \<and> 1 / 2 ^ 1022 \<le> (1 - 1 / 2 ^ 53) ^ (length billedRun + 1) * (96 / 1000 / 3600 :: real)
      \<and> (1 + 1 / 2 ^ 53) ^ (length billedRun + 1) * (3600 * analyticCost examplePrices [] billedRun)
          \<le> 2 ^ 1023"
  proof (intro conjI)
    show "\<forall>a \<in> set billedRun. priced examplePrices a" by (rule p)
    show "pricesFrom (96 / 1000) examplePrices" by (rule f)
    show "0 \<le> (96 / 1000 :: real)" by simp
    show "1 / 2 ^ 1022 \<le> (1 - 1 / 2 ^ 53) ^ (length billedRun + 1) * (96 / 1000 / 3600 :: real)"
      unfolding l by (rule b(1))
    show "(1 + 1 / 2 ^ 53) ^ (length billedRun + 1) * (3600 * analyticCost examplePrices [] billedRun)
          \<le> 2 ^ 1023"
      unfolding l a by (rule b(2))
  qed
  have second: "roundings (1 / 2 ^ 53) 6
        (cumulativeCost (run overshoot examplePrices NewCostMonitor billedRun))
        (2 * (96 / 1000) / 3600)"
    using cumulativeCost_analytic [OF roundsWithin_overshoot n,
      where c = NewCostMonitor and acts = billedRun and pmin = "96 / 1000",
      THEN conjunct2, THEN conjunct2, THEN conjunct1, THEN mp, OF h, THEN conjunct2]
    unfolding l a .
  have third: "cumulativeCost (run overshoot examplePrices NewCostMonitor billedRun)
          \<noteq> 2 * (96 / 1000) / 3600"
    by (simp add: billedRun_def run_def NewCostMonitor_def addNode_def removeNode_def Let_def
       m5Node_def labelAt_def LabelInstanceTypeStable_def examplePrices_def logCost_tick_def
       perHourCost_def priceAt_def overshoot_def)
  let ?c = "addNode examplePrices NewCostMonitor m5Node"
  have t: "pricesNonneg ?c \<and> 0 \<le> cumulativeCost ?c
      \<and> (\<forall>x \<in> set (roundedInTick overshoot ?c). inRange (1 / 2 ^ 1022) (2 ^ 1023) x)"
    by (simp add: pricesNonneg_def roundedInTick_def NewCostMonitor_def addNode_def Let_def
       m5Node_def labelAt_def LabelInstanceTypeStable_def examplePrices_def perHourCost_def
       priceAt_def overshoot_def inRange_def)
  have s: "length (nodes ?c) + 2 = 3"
      "cumulativeCost ?c + burnRate ?c * tickIntervalSeconds / 3600 = 96 / 1000 / 3600"
    by (simp_all add: NewCostMonitor_def addNode_def Let_def m5Node_def labelAt_def
       LabelInstanceTypeStable_def examplePrices_def burnRate_def priceAt_def
       tickIntervalSeconds_def)
  have fourth: "roundings (1 / 2 ^ 53) 3 (cumulativeCost (logCost_tick overshoot ?c))
      (96 / 1000 / 3600)"
    using cumulativeCost_analytic [OF roundsWithin_overshoot n,
      where c = ?c and acts = billedRun and pmin = "96 / 1000", THEN conjunct1, THEN mp, OF t]
    unfolding s .
  have "overshoot (2 ^ 1024) = 0" "overshoot (1 / 2 ^ 1023) = 0"
    by (simp_all add: overshoot_def)
  with first second third fourth show ?thesis by simp
qed

subsection \<open>A node whose price is not found\<close>

lemma addNode_miss:
  assumes "pprov (instanceTypeOf node) = None"
  shows "nodes (addNode pprov c node) = AList.update (Node.Name node) node (nodes c)"
    and "nodePrices (addNode pprov c node) = nodePrices c"
  using assms by (simp_all add: addNode_def Let_def instanceTypeOf_def)

lemma step_keeps_unpriced:
  "nodePrices c name = None \<Longrightarrow> \<not> repricing pprov name a \<Longrightarrow>
   nodePrices (step fl pprov c a) name = None"
  by (cases "(fl, pprov, c, a)" rule: step.cases)
     (auto simp: addNode_def removeNode_def Let_def instanceTypeOf_def split: option.splits)

lemma run_keeps_unpriced:
  "nodePrices c name = None \<Longrightarrow> \<forall>a \<in> set acts. \<not> repricing pprov name a \<Longrightarrow>
   nodePrices (run fl pprov c acts) name = None"
  by (induction acts arbitrary: c) (auto simp: step_keeps_unpriced)

lemma sumPrices_skip_unpriced:
  assumes "rounding fl"
  shows "fl acc = acc \<Longrightarrow>
     \<forall>(key, n) \<in> set ns. key = name \<longrightarrow> priceAt prices (Node.Name n) = 0 \<Longrightarrow>
     sumPrices fl (AList.delete name ns) prices acc = sumPrices fl ns prices acc"
proof (induction ns arbitrary: acc)
  case Nil
  show ?case by simp
next
  case (Cons x ns)
  obtain key n where x: "x = (key, n)" by (cases x)
  from Cons.prems(2) have rest:
    "\<forall>(key, n) \<in> set ns. key = name \<longrightarrow> priceAt prices (Node.Name n) = 0"
    by simp
  show ?case
  proof (cases "key = name")
    case True
    with Cons.prems(2) have "priceAt prices (Node.Name n) = 0" by (simp add: x)
    with True Cons.prems(1) Cons.IH [OF Cons.prems(1) rest] show ?thesis
      by (simp add: x)
  next
    case False
    have "fl (fl (acc + priceAt prices (Node.Name n))) = fl (acc + priceAt prices (Node.Name n))"
      by (rule roundingD(3) [OF assms])
    from False Cons.IH [OF this rest] show ?thesis
      by (simp add: x)
  qed
qed

lemma perHourCost_untrack:
  assumes "rounding fl" and "wellKeyed c" and "nodePrices c name = None"
  shows "perHourCost fl (untrack name c) = perHourCost fl c"
proof -
  have "\<forall>(key, n) \<in> set (nodes c). key = name \<longrightarrow> priceAt (nodePrices c) (Node.Name n) = 0"
    using assms(2,3) by (auto simp: wellKeyed_def priceAt_def)
  with assms(1) show ?thesis
    by (simp add: perHourCost_def untrack_def sumPrices_skip_unpriced roundingD(2))
qed

text \<open>
  C7, as the code has it. When the lookup of an arriving node's instance type fails,
  \<open>addNode\<close> tracks the node and leaves the price map as it was; it has no error to
  return. If the price map had no entry for the node's name, then after any further
  activities none of which is the arrival of a node of that name with a known price, the
  name still has no price, the per-hour cost that \<open>logCost\<close> computes is what it
  computes without the node, and a tick of the slow timer leaves the cumulative cost it
  would leave without the node.
\<close>

theorem lookup_miss_zero_contribution:
  assumes "rounding fl"
    and "pprov (instanceTypeOf node) = None"
    and "c = run fl pprov NewCostMonitor before"
  shows "map_of (nodes (addNode pprov c node)) (Node.Name node) = Some node
       \<and> nodePrices (addNode pprov c node) = nodePrices c
       \<and> (nodePrices c (Node.Name node) = None
            \<and> (\<forall>a \<in> set acts. \<not> repricing pprov (Node.Name node) a) \<longrightarrow>
          (let c' = run fl pprov (addNode pprov c node) acts in
             nodePrices c' (Node.Name node) = None
           \<and> perHourCost fl c' = perHourCost fl (untrack (Node.Name node) c')
           \<and> cumulativeCost (logCost_tick fl c')
               = cumulativeCost (logCost_tick fl (untrack (Node.Name node) c'))))"
proof -
  note miss = addNode_miss [where pprov = pprov and node = node, OF assms(2)]
  have ins: "map_of (nodes (addNode pprov c node)) (Node.Name node) = Some node"
    by (simp add: miss update_conv')
  have same: "nodePrices (addNode pprov c node) = nodePrices c"
    by (rule miss)
  have later: "nodePrices c' (Node.Name node) = None
           \<and> perHourCost fl c' = perHourCost fl (untrack (Node.Name node) c')
           \<and> cumulativeCost (logCost_tick fl c')
               = cumulativeCost (logCost_tick fl (untrack (Node.Name node) c'))"
    if none: "nodePrices c (Node.Name node) = None"
      and quiet: "\<forall>a \<in> set acts. \<not> repricing pprov (Node.Name node) a"
      and c': "c' = run fl pprov (addNode pprov c node) acts" for c'
  proof -
    have "wellKeyed c"
      unfolding assms(3) using wellKeyed_New by (rule wellKeyed_run)
    then have w: "wellKeyed c'"
      unfolding c' by (intro wellKeyed_run wellKeyed_addNode)
    have u: "nodePrices c' (Node.Name node) = None"
      unfolding c' using quiet none by (intro run_keeps_unpriced) (simp_all add: same)
    from perHourCost_untrack [OF assms(1) w u] u show ?thesis
      by (simp add: tick_cumulativeCost untrack_def)
  qed
  from ins same later show ?thesis
    by (simp add: Let_def)
qed

theorem lookup_miss_witness:
  "nodePrices (run fixedPoint examplePrices NewCostMonitor [NodeEvent Added unlabelledNode, SlowTick, FastTick])
      ''node-2'' = None
   \<and> map_of (nodes (addNode examplePrices NewCostMonitor unlabelledNode)) ''node-2''
       = Some unlabelledNode
   \<and> perHourCost fixedPoint (run fixedPoint examplePrices NewCostMonitor [NodeEvent Added unlabelledNode, SlowTick, FastTick])
       = perHourCost fixedPoint (untrack ''node-2''
           (run fixedPoint examplePrices NewCostMonitor [NodeEvent Added unlabelledNode, SlowTick, FastTick]))"
proof -
  have miss: "examplePrices (instanceTypeOf unlabelledNode) = None"
    by (simp add: examplePrices_def instanceTypeOf_def unlabelledNode_def labelAt_def)
  have start: "NewCostMonitor = run fixedPoint examplePrices NewCostMonitor []"
    by simp
  have none: "nodePrices NewCostMonitor (Node.Name unlabelledNode) = None"
    by (simp add: NewCostMonitor_def)
  have quiet: "\<forall>a \<in> set [SlowTick, FastTick]. \<not> repricing examplePrices (Node.Name unlabelledNode) a"
    by simp
  have name: "Node.Name unlabelledNode = ''node-2''"
    by (simp add: unlabelledNode_def)
  from lookup_miss_zero_contribution
    [where fl = fixedPoint and pprov = examplePrices and node = unlabelledNode
       and acts = "[SlowTick, FastTick]", OF rounding_fixedPoint miss start] none quiet
  show ?thesis
    by (simp add: Let_def name)
qed

text \<open>
  C7, as stated, fails for a modified node that had a price: \<open>node-1\<close> arrives with a
  known instance type, then is modified and arrives without its label, so the lookup
  fails; the old price stays in the price map, the per-hour cost is 0.096 with this node
  and 0 without it, and the next tick of the slow timer adds 0.096 / 3600 (in arithmetic
  without rounding error).
\<close>

theorem lookup_miss_counterexample:
  "examplePrices (instanceTypeOf relabelledNode) = None
   \<and> map fst (nodes (run exact examplePrices NewCostMonitor
        [NodeEvent Added m5Node, NodeEvent Modified relabelledNode])) = [''node-1'']
   \<and> perHourCost exact (run exact examplePrices NewCostMonitor
        [NodeEvent Added m5Node, NodeEvent Modified relabelledNode]) = 96 / 1000
   \<and> perHourCost exact (untrack ''node-1'' (run exact examplePrices NewCostMonitor
        [NodeEvent Added m5Node, NodeEvent Modified relabelledNode])) = 0
   \<and> cumulativeCost (run exact examplePrices NewCostMonitor
        [NodeEvent Added m5Node, NodeEvent Modified relabelledNode, SlowTick]) = 96 / 1000 / 3600"
  by (simp add: examplePrices_def instanceTypeOf_def relabelledNode_def m5Node_def labelAt_def
      NewCostMonitor_def addNode_def Let_def priceAt_def logCost_tick_def untrack_def
      perHourCost_def LabelInstanceTypeStable_def exact_def)

end
